theory Spec2Isabelle
  imports Main
begin

section \<open>Values, objects and the store\<close>

text \<open>
  The class \<open>Subscription\<close> of \<open>src/Subscription.ts\<close> works on JavaScript values of any
  kind (\<open>add\<close> inspects \<open>typeof teardown\<close>), on objects compared by identity, and on
  thrown values. The model keeps exactly what the class reads:
  \<^item> primitives, by kind and truthiness (numbers are integers here; \<open>NaN\<close> is left out);
  \<^item> a function value \<open>VFun f\<close>, identified by \<open>f\<close>; what a call of it does is looked up
    in the field \<open>code\<close> of the state;
  \<^item> a reference \<open>VObj a\<close> to the object at address \<open>a\<close> of the store;
  \<^item> the error objects that occur: \<open>UnsubscriptionError errors\<close> (lines 147--152),
    \<open>UsageError t\<close> for \<open>new Error('Unrecognized teardown ' + t + ' added to
    Subscription.')\<close> (line 118), represented by the offending value \<open>t\<close>, and
    \<open>TypeError\<close> for the engine's error on calling a value that is not a function.
\<close>

datatype val =
    VUndefined
  | VNull
  | VBool bool
  | VNum int
  | VStr string
  | VFun nat
  | VObj nat
  | UnsubscriptionError "val list"
  | UsageError val
  | TypeError

datatype jstype = TUndefined | TObject | TBoolean | TNumber | TString | TFunction

fun typeof :: "val \<Rightarrow> jstype" where
  "typeof VUndefined = TUndefined"
| "typeof VNull = TObject"
| "typeof (VBool b) = TBoolean"
| "typeof (VNum n) = TNumber"
| "typeof (VStr s) = TString"
| "typeof (VFun f) = TFunction"
| "typeof (VObj a) = TObject"
| "typeof (UnsubscriptionError es) = TObject"
| "typeof (UsageError t) = TObject"
| "typeof TypeError = TObject"

text \<open>JavaScript truthiness, as used by \<open>!teardown\<close> (line 97).\<close>

fun truthy :: "val \<Rightarrow> bool" where
  "truthy VUndefined = False"
| "truthy VNull = False"
| "truthy (VBool b) = b"
| "truthy (VNum n) = (n \<noteq> 0)"
| "truthy (VStr s) = (s \<noteq> [])"
| "truthy v = True"

text \<open>
  Modelled from the spec: \<open>util/isFunction\<close>, \<open>util/isObject\<close> and \<open>util/isArray\<close> are
  imported by the class but are not among the sources. Going by the spec's ``plain
  callable'' and ``object exposing a disposal operation'', \<open>isFunction x\<close> is
  \<open>typeof x === 'function'\<close> and \<open>isObject x\<close> is \<open>x != null && typeof x === 'object'\<close>;
  \<open>isArray\<close> holds of the child collection once it has been allocated.
\<close>

definition isFunction :: "val \<Rightarrow> bool" where
  "isFunction v = (typeof v = TFunction)"

definition isObject :: "val \<Rightarrow> bool" where
  "isObject v = (v \<noteq> VNull \<and> v \<noteq> VUndefined \<and> typeof v = TObject)"

text \<open>
  An object of the store is an instance of \<open>Subscription\<close>, with the three fields the
  class uses (\<open>_subscriptions\<close> is \<open>None\<close> while it is \<open>undefined\<close> or \<open>null\<close>, which
  \<open>isArray\<close> and the truth test of line 138 treat alike), or any other object, of
  which the class reads the properties \<open>isUnsubscribed\<close> and \<open>unsubscribe\<close> only
  (\<open>VUndefined\<close> when the property is missing).
\<close>

datatype obj =
    is_Sub: Sub (isUnsubscribed: bool) (unsubscribe_action: val) (subscriptions: "val list option")
  | Plain val val

datatype outcome = Return | Throw val

record state =
  heap :: "obj list"
  calls :: "(val \<times> val) list"
  code :: "nat \<Rightarrow> outcome"

text \<open>
  \<open>calls\<close> is the trace of the calls made so far, oldest first, each as the pair of
  the \<open>this\<close> value and the value called. \<open>code\<close> says, for every function, whether a call
  of it returns or throws (and what). Functions are taken not to call back into the
  store.
\<close>

definition get :: "state \<Rightarrow> nat \<Rightarrow> obj" where
  "get s a = (if a < length (heap s) then heap s ! a else Plain VUndefined VUndefined)"

definition put :: "state \<Rightarrow> nat \<Rightarrow> obj \<Rightarrow> state" where
  "put s a ob = s\<lparr>heap := (heap s)[a := ob]\<rparr>"

fun is_active :: "obj \<Rightarrow> bool" where
  "is_active (Sub u f cs) = (\<not> u)"
| "is_active (Plain i u) = False"

definition active_count :: "state \<Rightarrow> nat" where
  "active_count s = length (filter is_active (heap s))"

text \<open>The children currently held by the object at an address.\<close>

definition children :: "state \<Rightarrow> nat \<Rightarrow> val list" where
  "children s a = (case get s a of Sub u f (Some cs) \<Rightarrow> cs | _ \<Rightarrow> [])"

definition disposed :: "state \<Rightarrow> nat \<Rightarrow> bool" where
  "disposed s a = (case get s a of Sub u f cs \<Rightarrow> u | Plain i u \<Rightarrow> False)"

section \<open>Calls\<close>

text \<open>
  Modelled from the spec: \<open>util/tryCatch\<close> and \<open>util/errorObject\<close> are not among the
  sources; the spec says of them that a failure is captured without being propagated.
  \<open>call_fn s fn this\<close> is \<open>fn.call(this)\<close>: the call is put on the trace and its outcome
  is the function's, or a \<open>TypeError\<close> when \<open>fn\<close> is not a function.
\<close>

definition call_fn :: "state \<Rightarrow> val \<Rightarrow> val \<Rightarrow> outcome \<times> state" where
  "call_fn s fn this =
     ((case fn of VFun f \<Rightarrow> code s f | _ \<Rightarrow> Throw TypeError),
      s\<lparr>calls := calls s @ [(this, fn)]\<rparr>)"

section \<open>Subscription\<close>

text \<open>The constructor (lines 28--32): the new instance is put at the next free address.\<close>

definition new_Subscription :: "state \<Rightarrow> val \<Rightarrow> nat \<times> state" where
  "new_Subscription s u =
     (length (heap s),
      s\<lparr>heap := heap s @ [Sub False (if truthy u then u else VUndefined) None]\<rparr>)"

text \<open>The end of \<open>unsubscribe\<close> (lines 79--81).\<close>

fun finish :: "bool \<times> val list \<Rightarrow> outcome" where
  "finish (hasErrors, errors) = (if hasErrors then Throw (UnsubscriptionError errors) else Return)"

text \<open>What the loop does with the error of a child (lines 66--73).\<close>

fun collect :: "bool \<times> val list \<Rightarrow> val \<Rightarrow> bool \<times> val list" where
  "collect (hasErrors, errors) (UnsubscriptionError es) = (True, errors @ es)"
| "collect (hasErrors, errors) err = (True, errors @ [err])"

text \<open>
  \<open>unsubscribe n s a\<close> is the call \<open>a.unsubscribe()\<close> in the state \<open>s\<close>: lines 34--82 when
  \<open>a\<close> is an instance of \<open>Subscription\<close>, and the call of the object's own \<open>unsubscribe\<close>
  property otherwise. \<open>unsub_loop\<close> is the loop of lines 61--76 over the detached
  children, with \<open>(hasErrors, errors)\<close> as its accumulator. The calls nest as deep as the
  tree of children is; \<open>n\<close> bounds the depth, and \<open>None\<close> says that the bound was reached.
\<close>

fun unsubscribe :: "nat \<Rightarrow> state \<Rightarrow> nat \<Rightarrow> (outcome \<times> state) option"
  and unsub_loop :: "nat \<Rightarrow> state \<Rightarrow> val list \<Rightarrow> bool \<times> val list \<Rightarrow> ((bool \<times> val list) \<times> state) option"
where
  "unsubscribe 0 s a = None"
| "unsubscribe (Suc n) s a =
     (case get s a of
        Plain i u \<Rightarrow> Some (call_fn s u (VObj a))
      | Sub isU un subs \<Rightarrow>
          if isU then Some (Return, s)
          else
            let s1 = put s a (Sub True un None);
                (trial, s2) = (if isFunction un then call_fn s1 un (VObj a) else (Return, s1));
                acc = (case trial of Throw e \<Rightarrow> (True, [e]) | Return \<Rightarrow> (False, []))
            in (case subs of
                  None \<Rightarrow> Some (finish acc, s2)
                | Some cs \<Rightarrow>
                    (case unsub_loop n s2 cs acc of
                       None \<Rightarrow> None
                     | Some (acc', s3) \<Rightarrow> Some (finish acc', s3))))"
| "unsub_loop n s [] acc = Some (acc, s)"
| "unsub_loop n s (sub # rest) acc =
     (if isObject sub then
        (case (case sub of VObj a \<Rightarrow> unsubscribe n s a | _ \<Rightarrow> Some (call_fn s VUndefined sub)) of
           None \<Rightarrow> None
         | Some (Return, s') \<Rightarrow> unsub_loop n s' rest acc
         | Some (Throw err, s') \<Rightarrow> unsub_loop n s' rest (collect acc err))
      else unsub_loop n s rest acc)"

text \<open>\<open>dispose\<close> is \<open>unsubscribe\<close> called from outside, with a bound that is always enough.\<close>

definition dispose :: "state \<Rightarrow> nat \<Rightarrow> (outcome \<times> state) option" where
  "dispose s a = unsubscribe (Suc (active_count s)) s a"

text \<open>
  The shared instance \<open>Subscription.EMPTY\<close> (lines 21--24) is made when the class is
  loaded, so it is the first object of the store.
\<close>

definition EMPTY :: nat where
  "EMPTY = 0"

definition init :: "(nat \<Rightarrow> outcome) \<Rightarrow> state" where
  "init c = \<lparr>heap = [Sub True VUndefined None], calls = [], code = c\<rparr>"

text \<open>\<open>typeof sub.unsubscribe === 'function'\<close> and \<open>sub.isUnsubscribed\<close> (line 109).\<close>

definition has_unsubscribe :: "state \<Rightarrow> val \<Rightarrow> bool" where
  "has_unsubscribe s sub =
     (case sub of
        VObj a \<Rightarrow> (case get s a of Sub u f cs \<Rightarrow> True | Plain i u \<Rightarrow> isFunction u)
      | _ \<Rightarrow> False)"

definition prop_isUnsubscribed :: "state \<Rightarrow> val \<Rightarrow> val" where
  "prop_isUnsubscribed s sub =
     (case sub of
        VObj a \<Rightarrow> (case get s a of Sub u f cs \<Rightarrow> VBool u | Plain i u \<Rightarrow> i)
      | _ \<Rightarrow> VUndefined)"

text \<open>
  The case \<open>'object'\<close> of \<open>add\<close> (lines 108--116), on the receiver \<open>this\<close>, an instance
  with the fields \<open>isU\<close>, \<open>un\<close>, \<open>subs\<close>.
\<close>

definition add_object :: "state \<Rightarrow> nat \<Rightarrow> val \<Rightarrow> (outcome \<times> state) option" where
  "add_object s this sub =
     (case get s this of
        Plain i u \<Rightarrow> Some (Throw TypeError, s)
      | Sub isU un subs \<Rightarrow>
          if truthy (prop_isUnsubscribed s sub) \<or> \<not> has_unsubscribe s sub then Some (Return, s)
          else if isU then (case sub of VObj a \<Rightarrow> dispose s a | _ \<Rightarrow> Some (Throw TypeError, s))
          else Some (Return,
                 put s this (Sub isU un (Some ((case subs of None \<Rightarrow> [] | Some cs \<Rightarrow> cs) @ [sub])))))"

text \<open>
  \<open>add\<close> (lines 96--120). A receiver that is no instance of \<open>Subscription\<close> has no
  method \<open>add\<close>: the call is a \<open>TypeError\<close>.
\<close>

definition add :: "state \<Rightarrow> nat \<Rightarrow> val \<Rightarrow> (outcome \<times> state) option" where
  "add s this teardown =
     (if \<not> is_Sub (get s this) then Some (Throw TypeError, s)
      else if \<not> truthy teardown \<or> teardown = VObj this \<or> teardown = VObj EMPTY then Some (Return, s)
      else
        (case typeof teardown of
           TFunction \<Rightarrow> (let (sub, s1) = new_Subscription s teardown in add_object s1 this (VObj sub))
         | TObject \<Rightarrow> add_object s this teardown
         | _ \<Rightarrow> Some (Throw (UsageError teardown), s)))"

text \<open>\<open>Array.prototype.indexOf\<close> (strict equality, \<open>-1\<close> when absent) and \<open>splice(i, 1)\<close>.\<close>

fun indexOf :: "val list \<Rightarrow> val \<Rightarrow> int" where
  "indexOf [] v = -1"
| "indexOf (x # xs) v =
     (if x = v then 0 else (let i = indexOf xs v in if i = -1 then -1 else i + 1))"

definition splice1 :: "val list \<Rightarrow> nat \<Rightarrow> val list" where
  "splice1 xs i = take i xs @ drop (Suc i) xs"

text \<open>\<open>remove\<close> (lines 127--144).\<close>

definition remove :: "state \<Rightarrow> nat \<Rightarrow> val \<Rightarrow> outcome \<times> state" where
  "remove s this subscription =
     (case get s this of
        Plain i u \<Rightarrow> (Throw TypeError, s)
      | Sub isU un subs \<Rightarrow>
          if subscription = VNull \<or> subscription = VUndefined
             \<or> subscription = VObj this \<or> subscription = VObj EMPTY then (Return, s)
          else
            (case subs of
               None \<Rightarrow> (Return, s)
             | Some cs \<Rightarrow>
                 (let subscriptionIndex = indexOf cs subscription
                  in if subscriptionIndex \<noteq> -1
                     then (Return, put s this (Sub isU un (Some (splice1 cs (nat subscriptionIndex)))))
                     else (Return, s))))"

section \<open>Auxiliary notions for the proofs\<close>

text \<open>\<open>err instanceof UnsubscriptionError\<close> (line 69).\<close>

fun is_UnsubscriptionError :: "val \<Rightarrow> bool" where
  "is_UnsubscriptionError (UnsubscriptionError es) = True"
| "is_UnsubscriptionError v = False"

text \<open>
  Lines 42--54 on their own: the flag is set, the child collection is detached, and the
  primary action is called when it is a function. The result is the accumulator
  \<open>(hasErrors, errors)\<close> with which the loop starts, and the state.
\<close>

definition primary :: "state \<Rightarrow> nat \<Rightarrow> val \<Rightarrow> (bool \<times> val list) \<times> state" where
  "primary s a un =
     (let s1 = put s a (Sub True un None);
          (trial, s2) = (if isFunction un then call_fn s1 un (VObj a) else (Return, s1))
      in ((case trial of Throw e \<Rightarrow> (True, [e]) | Return \<Rightarrow> (False, [])), s2))"

text \<open>
  What a disposal can change in the store: nothing but that active instances become
  disposed ones, with the same primary action and no child collection.
\<close>

definition frame :: "state \<Rightarrow> state \<Rightarrow> bool" where
  "frame s s' \<longleftrightarrow>
     code s' = code s \<and> length (heap s') = length (heap s) \<and>
     (\<forall>a. get s' a = get s a \<or> (\<exists>un subs. get s a = Sub False un subs \<and> get s' a = Sub True un None))"

section \<open>States of the scenarios\<close>

text \<open>
  Error flattening: the registry 1 has the primary action 4 and the children 2, an object
  with an \<open>unsubscribe\<close> of its own, and 3, a registry that owns the wrappers 4 and 5 of
  two failing functions.
\<close>

definition flat_code :: "nat \<Rightarrow> outcome" where
  "flat_code f = (if f = 1 then Throw (VStr ''e1'') else if f = 2 then Throw (VStr ''e2'')
     else if f = 3 then Throw (VStr ''e3'') else if f = 4 then Throw (VStr ''e4'') else Return)"

definition flat_state :: state where
  "flat_state = \<lparr>heap = [Sub True VUndefined None,
                          Sub False (VFun 4) (Some [VObj 2, VObj 3]),
                          Plain VUndefined (VFun 1),
                          Sub False VUndefined (Some [VObj 4, VObj 5]),
                          Sub False (VFun 2) None,
                          Sub False (VFun 3) None],
                  calls = [], code = flat_code\<rparr>"

definition flat_mid :: state where
  "flat_mid = \<lparr>heap = [Sub True VUndefined None, Sub True (VFun 4) None, Plain VUndefined (VFun 1),
              Sub False VUndefined (Some [VObj 4, VObj 5]), Sub False (VFun 2) None, Sub False (VFun 3) None],
      calls = [(VObj 1, VFun 4), (VObj 2, VFun 1)],
      code = flat_code\<rparr>"

definition flat_final :: state where
  "flat_final = \<lparr>heap = [Sub True VUndefined None, Sub True (VFun 4) None, Plain VUndefined (VFun 1),
              Sub True VUndefined None, Sub True (VFun 2) None, Sub True (VFun 3) None],
      calls = [(VObj 1, VFun 4), (VObj 2, VFun 1), (VObj 4, VFun 2), (VObj 5, VFun 3)],
      code = flat_code\<rparr>"

section \<open>Counting calls\<close>

text \<open>
  The number of calls made so far with the object at \<open>a\<close> as \<open>this\<close>; for an instance of
  \<open>Subscription\<close> these are the calls of its primary action. \<open>credit\<close> adds to it the one
  call that an active instance still has to make.
\<close>

definition invocations :: "state \<Rightarrow> nat \<Rightarrow> nat" where
  "invocations s a = length (filter (\<lambda>c. fst c = VObj a) (calls s))"


text \<open>
  The scenario of idempotency: the registry 1 has no primary action and owns the wrappers
  2 and 3 of a function that throws \<open>''a''\<close> and of one that returns.
\<close>

definition idem_code :: "nat \<Rightarrow> outcome" where
  "idem_code f = (if f = 1 then Throw (VStr ''a'') else Return)"

definition idem_state :: state where
  "idem_state = \<lparr>heap = [Sub True VUndefined None,
                          Sub False VUndefined (Some [VObj 2, VObj 3]),
                          Sub False (VFun 1) None,
                          Sub False (VFun 2) None],
                  calls = [], code = idem_code\<rparr>"


section \<open>Failed steps\<close>

text \<open>
  A call of the trace failed when the function called throws, or when what was called is no
  function. \<open>new_calls s s'\<close> are the calls made between the states \<open>s\<close> and \<open>s'\<close>.
  \<open>raised s s' b\<close> says that the trace of \<open>s'\<close> extends that of \<open>s\<close> and that \<open>b\<close> tells
  whether one of the calls made in between failed.
\<close>

definition failed :: "state \<Rightarrow> val \<times> val \<Rightarrow> bool" where
  "failed s c = (case snd c of VFun f \<Rightarrow> code s f \<noteq> Return | _ \<Rightarrow> True)"

definition new_calls :: "state \<Rightarrow> state \<Rightarrow> (val \<times> val) list" where
  "new_calls s s' = drop (length (calls s)) (calls s')"

definition raised :: "state \<Rightarrow> state \<Rightarrow> bool \<Rightarrow> bool" where
  "raised s s' b \<longleftrightarrow>
     code s' = code s \<and> take (length (calls s)) (calls s') = calls s \<and>
     (b \<longleftrightarrow> list_ex (failed s) (new_calls s s'))"





text \<open>
  A primary action that itself throws an aggregate: the registry 1 has the primary action 1,
  which throws the aggregate of \<open>''x''\<close>.
\<close>

definition nested_code :: "nat \<Rightarrow> outcome" where
  "nested_code f = (if f = 1 then Throw (UnsubscriptionError [VStr ''x'']) else Return)"

definition nested_state :: state where
  "nested_state = \<lparr>heap = [Sub True VUndefined None, Sub False (VFun 1) None],
                    calls = [], code = nested_code\<rparr>"

text \<open>
  The nested scenario: the registry 1 owns the registry 2, which owns the wrapper 3 of a
  function that throws \<open>''x''\<close>.
\<close>

definition signal_code :: "nat \<Rightarrow> outcome" where
  "signal_code f = (if f = 1 then Throw (VStr ''x'') else Return)"

definition signal_state :: state where
  "signal_state = \<lparr>heap = [Sub True VUndefined None,
                            Sub False VUndefined (Some [VObj 2]),
                            Sub False VUndefined (Some [VObj 3]),
                            Sub False (VFun 1) None],
                    calls = [], code = signal_code\<rparr>"


text \<open>
  Unsupported inputs: the registry 1 is active, EMPTY is disposed, and the object 2 has
  neither an \<open>unsubscribe\<close> nor an \<open>isUnsubscribed\<close> property.
\<close>

definition ignore_state :: state where
  "ignore_state = \<lparr>heap = [Sub True VUndefined None, Sub False VUndefined None,
                            Plain VUndefined VUndefined],
                    calls = [], code = (\<lambda>f. Return)\<rparr>"

text \<open>
  Release: the registry 1 has the primary action 1, which returns, and owns the registry 2.
\<close>

definition keep_state :: state where
  "keep_state = \<lparr>heap = [Sub True VUndefined None, Sub False (VFun 1) (Some [VObj 2]),
                          Sub False VUndefined None],
                  calls = [], code = (\<lambda>f. Return)\<rparr>"

text \<open>
  The sentinel and one active registry without primary action or children.
\<close>

definition sentinel_state :: state where
  "sentinel_state = \<lparr>heap = [Sub True VUndefined None, Sub False VUndefined None],
                      calls = [], code = (\<lambda>f. Return)\<rparr>"

text \<open>
  Adding to a disposed registry: the registry 1 is disposed, the registry 2 is active and
  owns the wrapper 3 of the function 1, which throws \<open>''late''\<close>.
\<close>

definition late_code :: "nat \<Rightarrow> outcome" where
  "late_code f = (if f = 1 then Throw (VStr ''late'') else Return)"

definition late_state :: state where
  "late_state = \<lparr>heap = [Sub True VUndefined None, Sub True VUndefined None,
                          Sub False VUndefined (Some [VObj 3]), Sub False (VFun 1) None],
                  calls = [], code = late_code\<rparr>"

text \<open>
  Removal: the active registry 1 has no child, and the active registry 2 has the primary
  action 1.
\<close>

definition rm_state :: state where
  "rm_state = \<lparr>heap = [Sub True VUndefined None, Sub False VUndefined None,
                        Sub False (VFun 1) None],
                calls = [], code = (\<lambda>f. Return)\<rparr>"

section \<open>Self-reference\<close>

text \<open>No registry of the store has itself among its children.\<close>

definition no_self :: "state \<Rightarrow> bool" where
  "no_self s = list_all (\<lambda>a. VObj a \<notin> set (children s a)) [0..<length (heap s)]"

text \<open>
  Cycles: the registries 1 and 2 own each other, the registry 3 owns itself (which no
  sequence of operations brings about), and each has a primary action that returns.
\<close>

definition cycle_state :: state where
  "cycle_state = \<lparr>heap = [Sub True VUndefined None,
                           Sub False (VFun 1) (Some [VObj 2]),
                           Sub False (VFun 2) (Some [VObj 1]),
                           Sub False (VFun 3) (Some [VObj 3])],
                   calls = [], code = (\<lambda>f. Return)\<rparr>"

text \<open>
  Wrappers: the active registry 1 has no child; the function 7 returns.
\<close>

definition wrap_state :: state where
  "wrap_state = \<lparr>heap = [Sub True VUndefined None, Sub False VUndefined None],
                  calls = [], code = (\<lambda>f. Return)\<rparr>"

section \<open>Building the scenarios\<close>

text \<open>
  Sequencing for the scenarios: the state after a call, whatever its outcome, and the
  state after a construction.
\<close>

definition after :: "(outcome \<times> state) option \<Rightarrow> state \<Rightarrow> state" where
  "after r s = (case r of Some (res, s') \<Rightarrow> s' | None \<Rightarrow> s)"

definition construct :: "state \<Rightarrow> val \<Rightarrow> state" where
  "construct s u = snd (new_Subscription s u)"

section \<open>Entries that hold an object\<close>

text \<open>
  The number of entries equal to \<open>v\<close> in the child collection of an object, when it is an
  active registry, and \<open>held s a\<close>, the number of entries of the store that hold the
  object at \<open>a\<close>: the calls that the cascades of the active registries still owe it.
\<close>

fun entries :: "obj \<Rightarrow> val \<Rightarrow> nat" where
  "entries (Sub False f (Some cs)) v = count_list cs v"
| "entries ob v = 0"

definition held :: "state \<Rightarrow> nat \<Rightarrow> nat" where
  "held s a = sum_list (map (\<lambda>ob. entries ob (VObj a)) (heap s))"

text \<open>
  An object held twice: the store has the object 1, whose \<open>unsubscribe\<close> is the function 1;
  a registry is made, at 2, and the object is added to it twice.
\<close>

definition dup_start :: state where
  "dup_start = \<lparr>heap = [Sub True VUndefined None, Plain VUndefined (VFun 1)],
                 calls = [], code = (\<lambda>f. Return)\<rparr>"

definition dup_state :: state where
  "dup_state =
     (let s1 = construct dup_start VUndefined;
          s2 = after (add s1 2 (VObj 1)) s1
      in after (add s2 2 (VObj 1)) s2)"

text \<open>
  A registry held already: the registry 1 is made, then the registry 2 with the primary
  action 1, and the second is added to the first.
\<close>

definition twice_state :: state where
  "twice_state =
     (let s1 = construct (init (\<lambda>f. Return)) VUndefined;
          s2 = construct s1 (VFun 1)
      in after (add s2 1 (VObj 2)) s2)"

section \<open>The store\<close>

lemma get_put: "get (put s a ob) b = (if b = a \<and> a < length (heap s) then ob else get s b)"
  by (simp add: get_def put_def)

lemma get_Sub_bound: "get s a = Sub u f cs \<Longrightarrow> a < length (heap s)"
  by (simp add: get_def split: if_splits)

lemma get_call_fn [simp]: "get (snd (call_fn s fn this)) a = get s a"
  by (simp add: call_fn_def get_def)

lemma code_call_fn [simp]: "code (snd (call_fn s fn this)) = code s"
  by (simp add: call_fn_def)

lemma heap_call_fn [simp]: "heap (snd (call_fn s fn this)) = heap s"
  by (simp add: call_fn_def)

lemma calls_call_fn [simp]: "calls (snd (call_fn s fn this)) = calls s @ [(this, fn)]"
  by (simp add: call_fn_def)

lemma fst_call_fn: "fst (call_fn s fn this) = (case fn of VFun f \<Rightarrow> code s f | _ \<Rightarrow> Throw TypeError)"
  by (simp add: call_fn_def)

lemma code_put [simp]: "code (put s a ob) = code s"
  by (simp add: put_def)

lemma calls_put [simp]: "calls (put s a ob) = calls s"
  by (simp add: put_def)

lemma length_heap_put [simp]: "length (heap (put s a ob)) = length (heap s)"
  by (simp add: put_def)

lemma frame_refl [simp]: "frame s s"
  by (simp add: frame_def)

lemma frame_trans: "frame s t \<Longrightarrow> frame t u \<Longrightarrow> frame s u"
proof -
  assume st: "frame s t" and tu: "frame t u"
  have "get u a = get s a \<or> (\<exists>un subs. get s a = Sub False un subs \<and> get u a = Sub True un None)" for a
  proof -
    from st have 1: "get t a = get s a \<or> (\<exists>un subs. get s a = Sub False un subs \<and> get t a = Sub True un None)"
      by (simp add: frame_def)
    from tu have 2: "get u a = get t a \<or> (\<exists>un subs. get t a = Sub False un subs \<and> get u a = Sub True un None)"
      by (simp add: frame_def)
    from 1 2 show ?thesis by (elim disjE exE conjE) simp_all
  qed
  with st tu show ?thesis by (simp add: frame_def)
qed

lemma frame_call_fn [simp]: "frame s (snd (call_fn s fn this))"
  by (simp add: frame_def)

lemma frame_put: "get s a = Sub False un subs \<Longrightarrow> frame s (put s a (Sub True un None))"
  by (auto simp: frame_def get_put)

lemma unsubscribe_active:
  "get s a = Sub False un subs \<Longrightarrow>
   unsubscribe (Suc n) s a =
     (let s1 = put s a (Sub True un None);
          (trial, s2) = (if isFunction un then call_fn s1 un (VObj a) else (Return, s1));
          acc = (case trial of Throw e \<Rightarrow> (True, [e]) | Return \<Rightarrow> (False, []))
      in (case subs of
            None \<Rightarrow> Some (finish acc, s2)
          | Some cs \<Rightarrow>
              (case unsub_loop n s2 cs acc of
                 None \<Rightarrow> None
               | Some (acc', s3) \<Rightarrow> Some (finish acc', s3))))"
  by simp

lemma unsubscribe_disposed:
  "get s a = Sub True un subs \<Longrightarrow> unsubscribe (Suc n) s a = Some (Return, s)"
  by simp

lemma unsubscribe_Plain:
  "get s a = Plain i u \<Longrightarrow> unsubscribe (Suc n) s a = Some (call_fn s u (VObj a))"
  by simp

lemma frame_primary: "get s a = Sub False un subs \<Longrightarrow> frame s (snd (primary s a un))"
  apply (simp add: primary_def Let_def split: prod.splits if_splits)
  apply (intro conjI impI allI)
   apply (metis frame_put frame_call_fn frame_trans snd_conv)
  by (simp add: frame_put)



lemma unsub_loop_VObj:
  "unsub_loop n s (VObj a # rest) acc =
     (case unsubscribe n s a of
        None \<Rightarrow> None
      | Some (r, s') \<Rightarrow> unsub_loop n s' rest (case r of Return \<Rightarrow> acc | Throw e \<Rightarrow> collect acc e))"
  by (simp add: isObject_def split: option.splits outcome.splits)

lemma unsub_loop_skip:
  "\<not> isObject c \<Longrightarrow> unsub_loop n s (c # rest) acc = unsub_loop n s rest acc"
  by simp

lemma unsub_loop_other:
  "isObject c \<Longrightarrow> \<forall>a. c \<noteq> VObj a \<Longrightarrow>
   unsub_loop n s (c # rest) acc =
     unsub_loop n (snd (call_fn s VUndefined c)) rest (collect acc TypeError)"
  by (cases c) (simp_all add: call_fn_def isObject_def)

declare unsub_loop.simps(2) [simp del]

lemma unsub_loop_invariant:
  assumes run: "unsub_loop n s cs acc = Some (acc', s')"
    and init: "I s acc"
    and child: "\<And>s acc a r t. I s acc \<Longrightarrow> unsubscribe n s a = Some (r, t) \<Longrightarrow>
                  I t (case r of Return \<Rightarrow> acc | Throw e \<Rightarrow> collect acc e)"
    and other: "\<And>s acc c. I s acc \<Longrightarrow> isObject c \<Longrightarrow> \<forall>a. c \<noteq> VObj a \<Longrightarrow>
                  I (snd (call_fn s VUndefined c)) (collect acc TypeError)"
  shows "I s' acc'"
  using run init
proof (induction cs arbitrary: s acc)
  case Nil
  then show ?case by simp
next
  case (Cons c cs)
  show ?case
  proof (cases "isObject c")
    case False
    with Cons show ?thesis by (simp add: unsub_loop_skip)
  next
    case True
    show ?thesis
    proof (cases "\<exists>a. c = VObj a")
      case True
      then obtain a where c: "c = VObj a" ..
      from Cons.prems(1) obtain r t where u: "unsubscribe n s a = Some (r, t)"
        and rest: "unsub_loop n t cs (case r of Return \<Rightarrow> acc | Throw e \<Rightarrow> collect acc e) = Some (acc', s')"
        unfolding c unsub_loop_VObj by (auto split: option.splits)
      from Cons.IH [OF rest child [OF Cons.prems(2) u]] show ?thesis .
    next
      case False
      then have nob: "\<forall>a. c \<noteq> VObj a" by simp
      from Cons.prems(1) have rest:
        "unsub_loop n (snd (call_fn s VUndefined c)) cs (collect acc TypeError) = Some (acc', s')"
        by (simp only: unsub_loop_other [OF True nob])
      from Cons.IH [OF rest other [OF Cons.prems(2) True nob]] show ?thesis .
    qed
  qed
qed

lemma frame_loop:
  assumes IH: "\<And>s a r s'. unsubscribe n s a = Some (r, s') \<Longrightarrow> frame s s'"
    and run: "unsub_loop n s cs acc = Some (acc', s')"
  shows "frame s s'"
  by (rule unsub_loop_invariant [where I = "\<lambda>t _. frame s t", OF run])
     (auto intro: frame_trans IH frame_call_fn)

lemma primary_eq:
  "get s a = Sub False un subs \<Longrightarrow>
   unsubscribe (Suc n) s a =
     (case subs of
        None \<Rightarrow> Some (finish (fst (primary s a un)), snd (primary s a un))
      | Some cs \<Rightarrow>
          (case unsub_loop n (snd (primary s a un)) cs (fst (primary s a un)) of
             None \<Rightarrow> None
           | Some (acc', s3) \<Rightarrow> Some (finish acc', s3)))"
  by (simp add: primary_def Let_def split: prod.splits option.splits)

declare unsubscribe.simps(2) [simp del]

lemma frame_unsubscribe: "unsubscribe n s a = Some (r, s') \<Longrightarrow> frame s s'"
proof (induction n arbitrary: s a r s')
  case 0
  then show ?case by simp
next
  case (Suc n)
  show ?case
  proof (cases "get s a")
    case (Plain i u)
    with Suc.prems have "s' = snd (call_fn s u (VObj a))" by (auto simp: unsubscribe_Plain)
    then show ?thesis by simp
  next
    case (Sub isU un subs)
    show ?thesis
    proof (cases isU)
      case True
      with Sub Suc.prems show ?thesis by (simp add: unsubscribe_disposed)
    next
      case False
      with Sub have g: "get s a = Sub False un subs" by simp
      have fp: "frame s (snd (primary s a un))" using g by (rule frame_primary)
      show ?thesis
      proof (cases subs)
        case None
        with Suc.prems g fp show ?thesis by (simp add: primary_eq)
      next
        case (Some cs)
        with Suc.prems g obtain acc' where
          "unsub_loop n (snd (primary s a un)) cs (fst (primary s a un)) = Some (acc', s')"
          by (auto simp: primary_eq split: option.splits)
        then have "frame (snd (primary s a un)) s'"
          using Suc.IH frame_loop by blast
        with fp show ?thesis by (rule frame_trans)
      qed
    qed
  qed
qed

section \<open>Termination of disposal\<close>

lemma filter_length_mono:
  "length xs = length ys \<Longrightarrow> (\<forall>i<length xs. P (ys ! i) \<longrightarrow> P (xs ! i)) \<Longrightarrow>
   length (filter P ys) \<le> length (filter P xs)"
proof (induction xs ys rule: list_induct2)
  case Nil
  then show ?case by simp
next
  case (Cons x xs y ys)
  from Cons.prems have hd: "P y \<longrightarrow> P x" by auto
  from Cons.prems have "\<forall>i<length xs. P (ys ! i) \<longrightarrow> P (xs ! i)" by auto
  with Cons.IH have "length (filter P ys) \<le> length (filter P xs)" by simp
  with hd show ?case by auto
qed

lemma active_count_frame: "frame s s' \<Longrightarrow> active_count s' \<le> active_count s"
proof -
  assume f: "frame s s'"
  have len: "length (heap s) = length (heap s')" using f by (simp add: frame_def)
  have "is_active (heap s' ! i) \<longrightarrow> is_active (heap s ! i)" if "i < length (heap s)" for i
  proof -
    from f have "get s' i = get s i \<or> (\<exists>un subs. get s i = Sub False un subs \<and> get s' i = Sub True un None)"
      by (simp add: frame_def)
    with that len show ?thesis by (auto simp: get_def)
  qed
  with len show ?thesis
    unfolding active_count_def by (intro filter_length_mono) auto
qed

lemma filter_length_update:
  "a < length xs \<Longrightarrow> P (xs ! a) \<Longrightarrow> \<not> P y \<Longrightarrow>
   Suc (length (filter P (xs[a := y]))) = length (filter P xs)"
proof (induction xs arbitrary: a)
  case Nil
  then show ?case by simp
next
  case (Cons x xs)
  then show ?case by (cases a) auto
qed

lemma active_count_put:
  "get s a = Sub False un subs \<Longrightarrow> Suc (active_count (put s a (Sub True un None))) = active_count s"
proof -
  assume g: "get s a = Sub False un subs"
  then have a: "a < length (heap s)" by (rule get_Sub_bound)
  with g have "is_active (heap s ! a)" by (simp add: get_def)
  with a show ?thesis
    unfolding active_count_def put_def by (simp add: filter_length_update)
qed

lemma active_count_call_fn [simp]: "active_count (snd (call_fn s fn this)) = active_count s"
  by (simp add: active_count_def)

lemma active_count_primary:
  "get s a = Sub False un subs \<Longrightarrow> Suc (active_count (snd (primary s a un))) = active_count s"
  by (simp add: primary_def Let_def active_count_put split: prod.splits if_splits)
     (metis active_count_call_fn active_count_put snd_conv)

lemma unsub_loop_total:
  assumes IH: "\<And>s a. active_count s < n \<Longrightarrow> \<exists>r. unsubscribe n s a = Some r"
  shows "active_count s < n \<Longrightarrow> \<exists>r. unsub_loop n s cs acc = Some r"
proof (induction cs arbitrary: s acc)
  case Nil
  then show ?case by simp
next
  case (Cons c cs)
  show ?case
  proof (cases "isObject c")
    case False
    with Cons show ?thesis by (simp add: unsub_loop_skip)
  next
    case True
    show ?thesis
    proof (cases "\<exists>a. c = VObj a")
      case True
      then obtain a where c: "c = VObj a" ..
      from IH [OF Cons.prems] obtain r t where u: "unsubscribe n s a = Some (r, t)" by force
      then have "active_count t \<le> active_count s"
        by (intro active_count_frame frame_unsubscribe)
      with Cons.prems have "active_count t < n" by simp
      from Cons.IH [OF this] u show ?thesis by (simp add: c unsub_loop_VObj)
    next
      case False
      then have nob: "\<forall>a. c \<noteq> VObj a" by simp
      from Cons.prems have "active_count (snd (call_fn s VUndefined c)) < n" by simp
      from Cons.IH [OF this] show ?thesis by (simp only: unsub_loop_other [OF True nob])
    qed
  qed
qed

lemma unsubscribe_total: "active_count s < n \<Longrightarrow> \<exists>r. unsubscribe n s a = Some r"
proof (induction n arbitrary: s a)
  case 0
  then show ?case by simp
next
  case (Suc n)
  show ?case
  proof (cases "get s a")
    case (Plain i u)
    then show ?thesis by (simp add: unsubscribe_Plain)
  next
    case (Sub isU un subs)
    show ?thesis
    proof (cases isU)
      case True
      with Sub show ?thesis by (simp add: unsubscribe_disposed)
    next
      case False
      with Sub have g: "get s a = Sub False un subs" by simp
      from active_count_primary [OF g] Suc.prems
      have "active_count (snd (primary s a un)) < n" by simp
      then have "\<exists>r. unsub_loop n (snd (primary s a un)) cs acc = Some r" for cs acc
        using Suc.IH by (intro unsub_loop_total) auto
      then show ?thesis
        by (cases subs) (fastforce simp: primary_eq [OF g] split: option.splits)+
    qed
  qed
qed

lemma unsub_loop_fuel:
  assumes IH: "\<And>s a r. unsubscribe n s a = Some r \<Longrightarrow> unsubscribe m s a = Some r"
  shows "unsub_loop n s cs acc = Some r \<Longrightarrow> unsub_loop m s cs acc = Some r"
proof (induction cs arbitrary: s acc)
  case Nil
  then show ?case by simp
next
  case (Cons c cs)
  show ?case
  proof (cases "isObject c")
    case False
    with Cons show ?thesis by (simp add: unsub_loop_skip)
  next
    case True
    show ?thesis
    proof (cases "\<exists>a. c = VObj a")
      case True
      then obtain a where c: "c = VObj a" ..
      from Cons.prems obtain o1 t where u: "unsubscribe n s a = Some (o1, t)"
        and rest: "unsub_loop n t cs (case o1 of Return \<Rightarrow> acc | Throw e \<Rightarrow> collect acc e) = Some r"
        unfolding c unsub_loop_VObj by (auto split: option.splits)
      from IH [OF u] Cons.IH [OF rest] show ?thesis by (simp add: c unsub_loop_VObj)
    next
      case False
      then have nob: "\<forall>a. c \<noteq> VObj a" by simp
      from Cons.prems Cons.IH show ?thesis by (simp only: unsub_loop_other [OF True nob])
    qed
  qed
qed

lemma unsubscribe_fuel_Suc: "unsubscribe n s a = Some r \<Longrightarrow> unsubscribe (Suc n) s a = Some r"
proof (induction n arbitrary: s a r)
  case 0
  then show ?case by simp
next
  case (Suc n)
  show ?case
  proof (cases "get s a")
    case (Plain i u)
    with Suc.prems show ?thesis by (simp add: unsubscribe_Plain)
  next
    case (Sub isU un subs)
    show ?thesis
    proof (cases isU)
      case True
      with Sub Suc.prems show ?thesis by (simp add: unsubscribe_disposed)
    next
      case False
      with Sub have g: "get s a = Sub False un subs" by simp
      have "unsub_loop n t cs acc = Some x \<Longrightarrow> unsub_loop (Suc n) t cs acc = Some x" for t cs acc x
        using Suc.IH by (rule unsub_loop_fuel)
      with Suc.prems show ?thesis
        by (cases subs) (auto simp: primary_eq [OF g] split: option.splits)
    qed
  qed
qed

lemma unsubscribe_fuel: "unsubscribe n s a = Some r \<Longrightarrow> n \<le> m \<Longrightarrow> unsubscribe m s a = Some r"
  by (induction m) (auto simp: le_Suc_eq unsubscribe_fuel_Suc)

lemma dispose_total: "\<exists>r. dispose s a = Some r"
  unfolding dispose_def by (rule unsubscribe_total) simp

lemma dispose_eq_unsubscribe: "unsubscribe n s a = Some r \<Longrightarrow> dispose s a = Some r"
proof -
  assume u: "unsubscribe n s a = Some r"
  obtain r' where d: "unsubscribe (Suc (active_count s)) s a = Some r'"
    using dispose_total [of s a] by (auto simp: dispose_def)
  let ?m = "max n (Suc (active_count s))"
  from unsubscribe_fuel [OF u, of ?m] unsubscribe_fuel [OF d, of ?m] have "r = r'" by simp
  with d show ?thesis by (simp add: dispose_def)
qed

lemma unsubscribe_eq_dispose: "active_count s < n \<Longrightarrow> unsubscribe n s a = dispose s a"
  by (metis dispose_eq_unsubscribe unsubscribe_total)

section \<open>Error flattening\<close>

lemma collect_raw: "\<not> is_UnsubscriptionError e \<Longrightarrow> collect (h, es) e = (True, es @ [e])"
  by (cases e) simp_all

lemma primary_throw:
  "code s f = Throw e \<Longrightarrow>
   primary s a (VFun f) = ((True, [e]), snd (call_fn (put s a (Sub True (VFun f) None)) (VFun f) (VObj a)))"
  by (simp add: primary_def Let_def isFunction_def call_fn_def)

lemmas eval_simps = dispose_def active_count_def get_def put_def call_fn_def isFunction_def
  isObject_def unsubscribe.simps(2) unsub_loop.simps(2) Let_def

text \<open>
  Claim C1 (error flattening law). Let the registry \<open>p\<close> be active, with a primary action
  that fails with \<open>e4\<close> and the children \<open>a\<close> and \<open>b\<close>, in this order. Let the disposal
  of \<open>a\<close>, in the state left by the primary action, fail with \<open>e1\<close>, either raw or as the
  aggregate of \<open>e1\<close> alone that a registry wrapping a failing function signals, and let the
  disposal of \<open>b\<close>, in the state left by \<open>a\<close>, signal the aggregate of \<open>[e2, e3]\<close>. Then
  disposing \<open>p\<close> runs both children, ends in the state left by \<open>b\<close>, and signals the
  aggregate whose list is exactly \<open>[e4, e1, e2, e3]\<close>.
\<close>

theorem error_flattening:
  assumes p: "get s p = Sub False (VFun f) (Some [VObj a, VObj b])"
    and f: "code s f = Throw e4"
    and s1: "s1 = snd (call_fn (put s p (Sub True (VFun f) None)) (VFun f) (VObj p))"
    and a: "dispose s1 a = Some (Throw ea, s2)"
    and ea: "ea = e1 \<and> \<not> is_UnsubscriptionError e1 \<or> ea = UnsubscriptionError [e1]"
    and b: "dispose s2 b = Some (Throw (UnsubscriptionError [e2, e3]), s3)"
  shows "dispose s p = Some (Throw (UnsubscriptionError [e4, e1, e2, e3]), s3)"
proof -
  let ?n = "active_count s"
  have prim: "primary s p (VFun f) = ((True, [e4]), s1)"
    using f s1 by (simp add: primary_throw)
  have c1: "Suc (active_count s1) = ?n"
    using active_count_primary [OF p] prim by simp
  then have ua: "unsubscribe ?n s1 a = Some (Throw ea, s2)"
    using a by (simp add: unsubscribe_eq_dispose)
  then have "active_count s2 \<le> active_count s1"
    by (intro active_count_frame frame_unsubscribe)
  with c1 have ub: "unsubscribe ?n s2 b = Some (Throw (UnsubscriptionError [e2, e3]), s3)"
    using b by (simp add: unsubscribe_eq_dispose)
  have ca: "collect (True, [e4]) ea = (True, [e4, e1])"
    using ea by (auto simp: collect_raw)
  have "unsub_loop ?n s1 [VObj a, VObj b] (True, [e4]) = Some ((True, [e4, e1, e2, e3]), s3)"
    by (simp add: unsub_loop_VObj ua ub ca)
  then show ?thesis
    unfolding dispose_def by (simp add: primary_eq [OF p] prim)
qed

text \<open>
  The law at the scenario: all four functions are called, in the order 4, 1, 2, 3.
\<close>

theorem error_flattening_witness:
  "dispose flat_state 1 =
     Some (Throw (UnsubscriptionError [VStr ''e4'', VStr ''e1'', VStr ''e2'', VStr ''e3'']), flat_final)"
proof -
  have p: "get flat_state 1 = Sub False (VFun 4) (Some [VObj 2, VObj 3])"
    by (simp add: flat_state_def get_def)
  have f: "code flat_state 4 = Throw (VStr ''e4'')"
    by (simp add: flat_state_def flat_code_def)
  have a: "dispose (snd (call_fn (put flat_state 1 (Sub True (VFun 4) None)) (VFun 4) (VObj 1))) 2
             = Some (Throw (VStr ''e1''), flat_mid)"
    by (simp add: flat_state_def flat_mid_def flat_code_def eval_simps)
  have b: "dispose flat_mid 3 = Some (Throw (UnsubscriptionError [VStr ''e2'', VStr ''e3'']), flat_final)"
    by (simp add: flat_mid_def flat_final_def flat_code_def eval_simps)
  show ?thesis
    by (rule error_flattening [OF p f refl a _ b]) simp
qed

section \<open>Idempotency\<close>

lemma frameD:
  "frame s s' \<Longrightarrow>
   get s' a = get s a \<or> (\<exists>un subs. get s a = Sub False un subs \<and> get s' a = Sub True un None)"
  unfolding frame_def by blast


lemma frame_disposed: "frame s s' \<Longrightarrow> get s a = Sub True un subs \<Longrightarrow> get s' a = Sub True un subs"
  using frameD [of s s' a] by auto

lemma snd_primary:
  "snd (primary s a un) =
     (if isFunction un then snd (call_fn (put s a (Sub True un None)) un (VObj a))
      else put s a (Sub True un None))"
  by (simp add: primary_def Let_def split: prod.splits)

lemma get_primary:
  "get (snd (primary s a un)) b = (if b = a \<and> a < length (heap s) then Sub True un None else get s b)"
  by (simp add: snd_primary get_put)


lemma invocations_put [simp]: "invocations (put s b ob) a = invocations s a"
  by (simp add: invocations_def)





lemma disposed_after:
  assumes u: "unsubscribe n s a = Some (r, s')" and a: "is_Sub (get s a)"
  shows "disposed s' a"
proof (cases n)
  case 0
  with u show ?thesis by simp
next
  case (Suc m)
  from a obtain isU un subs where g: "get s a = Sub isU un subs" by (cases "get s a") auto
  show ?thesis
  proof (cases isU)
    case True
    with g u Suc show ?thesis by (simp add: unsubscribe_disposed disposed_def)
  next
    case False
    with g have g: "get s a = Sub False un subs" by simp
    have "get (snd (primary s a un)) a = Sub True un None"
      using get_Sub_bound [OF g] by (simp add: get_primary)
    moreover have "frame (snd (primary s a un)) s'"
    proof (cases subs)
      case None
      with u Suc g show ?thesis by (simp add: primary_eq)
    next
      case (Some cs)
      with u Suc g obtain acc' where
        "unsub_loop m (snd (primary s a un)) cs (fst (primary s a un)) = Some (acc', s')"
        by (auto simp: primary_eq split: option.splits)
      then show ?thesis using frame_unsubscribe frame_loop by blast
    qed
    ultimately have "get s' a = Sub True un None" by (simp add: frame_disposed)
    then show ?thesis by (simp add: disposed_def)
  qed
qed

lemma dispose_disposed: "disposed s a \<Longrightarrow> dispose s a = Some (Return, s)"
  by (cases "get s a") (simp_all add: disposed_def dispose_def unsubscribe_disposed)



lemma held_call_fn [simp]: "held (snd (call_fn s fn this)) a = held s a"
  by (simp add: held_def)




lemmas dup_simps = dup_state_def dup_start_def twice_state_def after_def construct_def
  new_Subscription_def init_def add_def add_object_def EMPTY_def prop_isUnsubscribed_def
  has_unsubscribe_def children_def




section \<open>When disposal signals, and what\<close>

lemma raised_refl [simp]: "raised s s False"
  by (simp add: raised_def new_calls_def)




lemma raised_put [simp]: "raised s (put s a ob) False"
  by (simp add: raised_def new_calls_def)

lemma fst_primary:
  "fst (primary s a un) =
     (if isFunction un
      then (case fst (call_fn (put s a (Sub True un None)) un (VObj a)) of
              Return \<Rightarrow> (False, []) | Throw e \<Rightarrow> (True, [e]))
      else (False, []))"
  by (simp add: primary_def Let_def split: prod.splits)


lemma fst_collect [simp]: "fst (collect acc e) = True"
  by (cases acc; cases e) simp_all








lemma new_calls_call_fn [simp]: "new_calls s (snd (call_fn s fn this)) = [(this, fn)]"
  by (simp add: new_calls_def)

lemma new_calls_put [simp]: "new_calls s (put s a ob) = []"
  by (simp add: new_calls_def)













section \<open>Usage errors\<close>

text \<open>
  Claim C4 (usage errors), as the code has it. On every registry, active or disposed,
  \<open>add\<close> signals the usage error at once, and changes nothing, for every truthy input
  that is neither a function nor an object. An object without an \<open>unsubscribe\<close> function
  is ignored: \<open>add\<close> returns normally and changes nothing; so is every falsy input.
\<close>

theorem add_usage_error:
  assumes "is_Sub (get s this)"
  shows "(truthy t \<and> typeof t \<noteq> TFunction \<and> typeof t \<noteq> TObject \<longrightarrow>
            add s this t = Some (Throw (UsageError t), s)) \<and>
         (typeof t = TObject \<and> \<not> has_unsubscribe s t \<longrightarrow> add s this t = Some (Return, s)) \<and>
         (\<not> truthy t \<longrightarrow> add s this t = Some (Return, s))"
proof (intro conjI impI)
  assume "truthy t \<and> typeof t \<noteq> TFunction \<and> typeof t \<noteq> TObject"
  with assms show "add s this t = Some (Throw (UsageError t), s)"
    by (cases t) (simp_all add: add_def)
next
  assume "typeof t = TObject \<and> \<not> has_unsubscribe s t"
  with assms show "add s this t = Some (Return, s)"
    by (cases "get s this") (simp_all add: add_def add_object_def)
next
  assume "\<not> truthy t"
  with assms show "add s this t = Some (Return, s)"
    by (simp add: add_def)
qed

text \<open>
  The theorem at an active registry and at the disposed one: a number and a string are
  refused, the object without \<open>unsubscribe\<close> and the number zero are ignored.
\<close>

theorem add_usage_error_witness:
  "is_Sub (get ignore_state 1) \<and> is_Sub (get ignore_state 0) \<and>
   add ignore_state 1 (VNum 5) = Some (Throw (UsageError (VNum 5)), ignore_state) \<and>
   add ignore_state 0 (VStr ''x'') = Some (Throw (UsageError (VStr ''x'')), ignore_state) \<and>
   add ignore_state 1 (VObj 2) = Some (Return, ignore_state) \<and>
   add ignore_state 1 (VNum 0) = Some (Return, ignore_state)"
proof -
  have 1: "is_Sub (get ignore_state 1)" and 0: "is_Sub (get ignore_state 0)"
    by (simp_all add: ignore_state_def get_def)
  have 2: "\<not> has_unsubscribe ignore_state (VObj 2)"
    by (simp add: ignore_state_def has_unsubscribe_def get_def isFunction_def)
  from add_usage_error [OF 1, of "VNum 5"] add_usage_error [OF 0, of "VStr ''x''"]
    add_usage_error [OF 1, of "VObj 2"] add_usage_error [OF 1, of "VNum 0"] 1 0 2
  show ?thesis by simp
qed

text \<open>
  The counterexample to the claim as stated: a non-null object that has no disposal
  operation is added to the active registry 1, and \<open>add\<close> returns normally.
\<close>

theorem add_usage_error_counterexample:
  "add ignore_state 1 (VObj 2) = Some (Return, ignore_state)"
  by (simp add: ignore_state_def add_def add_object_def get_def EMPTY_def
      prop_isUnsubscribed_def has_unsubscribe_def isFunction_def)

section \<open>What disposal releases\<close>

lemma unsubscribe_active_after:
  assumes u: "unsubscribe n s a = Some (r, s')" and g: "get s a = Sub False un subs"
  shows "get s' a = Sub True un None"
proof (cases n)
  case 0
  with u show ?thesis by simp
next
  case (Suc m)
  have "get (snd (primary s a un)) a = Sub True un None"
    using get_Sub_bound [OF g] by (simp add: get_primary)
  moreover have "frame (snd (primary s a un)) s'"
  proof (cases subs)
    case None
    with u Suc g show ?thesis by (simp add: primary_eq)
  next
    case (Some cs)
    with u Suc g obtain acc' where
      "unsub_loop m (snd (primary s a un)) cs (fst (primary s a un)) = Some (acc', s')"
      by (auto simp: primary_eq split: option.splits)
    then show ?thesis using frame_unsubscribe frame_loop by blast
  qed
  ultimately show ?thesis by (simp add: frame_disposed)
qed

text \<open>
  Claim C5 (post-disposal release), as the code has it. The first \<open>dispose\<close> of a registry
  returns or signals, and leaves the registry disposed and without a child collection; the
  field of the primary action keeps the value it had.
\<close>

theorem dispose_releases:
  assumes "get s r = Sub False un subs"
  shows "\<exists>res s'. dispose s r = Some (res, s') \<and> get s' r = Sub True un None \<and>
           children s' r = [] \<and> disposed s' r"
proof -
  obtain res s' where d: "dispose s r = Some (res, s')"
    using dispose_total [of s r] by auto
  then have "get s' r = Sub True un None"
    unfolding dispose_def using assms by (rule unsubscribe_active_after)
  with d show ?thesis by (simp add: children_def disposed_def)
qed

text \<open>The theorem at the registry 1 of the scenario.\<close>

theorem dispose_releases_witness:
  "get keep_state 1 = Sub False (VFun 1) (Some [VObj 2]) \<and>
   (\<exists>res s'. dispose keep_state 1 = Some (res, s') \<and> get s' 1 = Sub True (VFun 1) None \<and>
      children s' 1 = [] \<and> disposed s' 1)"
proof -
  have g: "get keep_state 1 = Sub False (VFun 1) (Some [VObj 2])"
    by (simp add: keep_state_def get_def)
  from dispose_releases [OF g] g show ?thesis by simp
qed

text \<open>
  The counterexample to the claim as stated: after \<open>dispose\<close>, the registry 1 still holds
  its primary action.
\<close>

theorem dispose_releases_counterexample:
  "map_option (\<lambda>(res, s'). unsubscribe_action (get s' 1)) (dispose keep_state 1) = Some (VFun 1)"
  by (simp add: keep_state_def eval_simps)

section \<open>Disposed registries stay as they are\<close>

lemma get_new_Subscription:
  "get (snd (new_Subscription s u)) a =
     (if a = length (heap s) then Sub False (if truthy u then u else VUndefined) None else get s a)"
  by (simp add: new_Subscription_def get_def nth_append)

lemma fst_new_Subscription [simp]: "fst (new_Subscription s u) = length (heap s)"
  by (simp add: new_Subscription_def)

lemma dispose_keeps:
  "dispose s r = Some (res, s') \<Longrightarrow> get s a = Sub True un subs \<Longrightarrow> get s' a = Sub True un subs"
  unfolding dispose_def by (blast intro: frame_disposed frame_unsubscribe)

lemma add_object_keeps:
  assumes "add_object s this sub = Some (res, s')" and a: "get s a = Sub True un subs"
  shows "get s' a = Sub True un subs"
proof (cases "get s this")
  case (Plain i u)
  with assms show ?thesis by (simp add: add_object_def)
next
  case (Sub isU tun tsubs)
  show ?thesis
  proof (cases "truthy (prop_isUnsubscribed s sub) \<or> \<not> has_unsubscribe s sub")
    case True
    with Sub assms show ?thesis by (simp add: add_object_def)
  next
    case False
    show ?thesis
    proof (cases isU)
      case True
      with Sub False assms(1) have "(case sub of VObj c \<Rightarrow> dispose s c | _ \<Rightarrow> Some (Throw TypeError, s)) = Some (res, s')"
        by (simp add: add_object_def)
      with a show ?thesis by (cases sub) (auto dest: dispose_keeps)
    next
      case isU: False
      with Sub a have "a \<noteq> this" by auto
      with Sub False isU assms show ?thesis by (auto simp: add_object_def get_put)
    qed
  qed
qed

lemma add_keeps:
  assumes "add s this t = Some (res, s')" and a: "get s a = Sub True un subs"
  shows "get s' a = Sub True un subs"
proof -
  from a have "a < length (heap s)" by (rule get_Sub_bound)
  with a have "get (snd (new_Subscription s t)) a = Sub True un subs"
    by (simp add: get_new_Subscription)
  with assms show ?thesis
    by (auto simp: add_def split: if_splits jstype.splits prod.splits dest: add_object_keeps)
qed

lemma remove_keeps:
  "get s a = Sub True un None \<Longrightarrow> get (snd (remove s this t)) a = Sub True un None"
  by (cases "get s this") (auto simp: remove_def get_put Let_def split: option.splits)

lemma add_object_disposed:
  assumes "get s this = Sub True un subs" and "get s c = Sub False cun csubs"
  shows "add_object s this (VObj c) = dispose s c"
  using assms by (simp add: add_object_def prop_isUnsubscribed_def has_unsubscribe_def)

lemma add_function:
  assumes "is_Sub (get s this)" and t: "typeof t = TFunction"
  shows "add s this t = add_object (snd (new_Subscription s t)) this (VObj (length (heap s)))"
proof -
  from t have "truthy t" "\<forall>a. t \<noteq> VObj a" by (cases t; simp)+
  with assms show ?thesis by (simp add: add_def new_Subscription_def)
qed

section \<open>The sentinel\<close>

text \<open>
  Claim C6 (EMPTY sentinel neutrality), as the code has it. In a state whose sentinel is
  as the class made it (disposed, without primary action, without children), as it is
  in the initial state:
  \<open>dispose\<close> of the sentinel returns and changes nothing; \<open>r.add(EMPTY)\<close> returns and
  changes nothing, for every registry \<open>r\<close>; and after \<open>add\<close>, \<open>remove\<close>, \<open>dispose\<close> with
  any receiver and argument, and after a construction, the sentinel is as it was, so it
  stays disposed and never gains a child. But \<open>add\<close> on the sentinel is no no-op: like
  any disposed registry, the sentinel disposes an active registry that is added to it, and
  wraps and disposes a function.
\<close>

theorem sentinel_neutral:
  assumes "get s EMPTY = Sub True VUndefined None"
  shows "get (init c) EMPTY = Sub True VUndefined None \<and>
         dispose s EMPTY = Some (Return, s) \<and>
         (is_Sub (get s r) \<longrightarrow> add s r (VObj EMPTY) = Some (Return, s)) \<and>
         (\<forall>res s'. add s r t = Some (res, s') \<longrightarrow> get s' EMPTY = Sub True VUndefined None) \<and>
         get (snd (remove s r t)) EMPTY = Sub True VUndefined None \<and>
         (\<forall>res s'. dispose s r = Some (res, s') \<longrightarrow> get s' EMPTY = Sub True VUndefined None) \<and>
         get (snd (new_Subscription s t)) EMPTY = Sub True VUndefined None \<and>
         (\<forall>un subs. get s r = Sub False un subs \<longrightarrow> add s EMPTY (VObj r) = dispose s r) \<and>
         (typeof t = TFunction \<longrightarrow>
            add s EMPTY t = dispose (snd (new_Subscription s t)) (length (heap s)))"
proof (intro conjI impI allI)
  show "get (init c) EMPTY = Sub True VUndefined None"
    by (simp add: init_def get_def EMPTY_def)
  show "dispose s EMPTY = Some (Return, s)"
    using assms by (simp add: dispose_disposed disposed_def)
  show "add s r (VObj EMPTY) = Some (Return, s)" if "is_Sub (get s r)"
    using that by (simp add: add_def)
  show "get s' EMPTY = Sub True VUndefined None" if "add s r t = Some (res, s')" for res s'
    using that assms by (rule add_keeps)
  show "get (snd (remove s r t)) EMPTY = Sub True VUndefined None"
    using assms by (rule remove_keeps)
  show "get s' EMPTY = Sub True VUndefined None" if "dispose s r = Some (res, s')" for res s'
    using that assms by (rule dispose_keeps)
  have bound: "EMPTY < length (heap s)" using assms by (rule get_Sub_bound)
  with assms show new: "get (snd (new_Subscription s t)) EMPTY = Sub True VUndefined None"
    by (simp add: get_new_Subscription)
  show "add s EMPTY (VObj r) = dispose s r" if "get s r = Sub False un subs" for un subs
  proof -
    from that assms have "r \<noteq> EMPTY" by auto
    with that assms show ?thesis by (simp add: add_def add_object_disposed)
  qed
  show "add s EMPTY t = dispose (snd (new_Subscription s t)) (length (heap s))"
    if t: "typeof t = TFunction"
  proof -
    from t have tr: "truthy t" by (cases t) simp_all
    from t have no: "\<forall>a. t \<noteq> VObj a" by auto
    have "get (snd (new_Subscription s t)) (length (heap s)) = Sub False t None"
      using tr by (simp add: get_new_Subscription)
    from add_object_disposed [OF new this] assms t show ?thesis
      by (simp add: add_function)
  qed
qed

text \<open>
  The theorem at the scenario: the sentinel is as the class made it, and stays so when the
  registry 1 is added to it, which disposes the registry 1.
\<close>

theorem sentinel_neutral_witness:
  "get sentinel_state EMPTY = Sub True VUndefined None \<and>
   dispose sentinel_state EMPTY = Some (Return, sentinel_state) \<and>
   add sentinel_state 1 (VObj EMPTY) = Some (Return, sentinel_state) \<and>
   add sentinel_state EMPTY (VObj 1) = dispose sentinel_state 1 \<and>
   map_option (\<lambda>(res, s'). get s' EMPTY) (add sentinel_state EMPTY (VObj 1)) =
     Some (Sub True VUndefined None)"
proof -
  have e: "get sentinel_state EMPTY = Sub True VUndefined None"
    by (simp add: sentinel_state_def get_def EMPTY_def)
  have 1: "get sentinel_state 1 = Sub False VUndefined None"
    by (simp add: sentinel_state_def get_def)
  note inst = sentinel_neutral [OF e, where r = 1 and t = "VObj 1"]
  obtain res s' where d: "dispose sentinel_state 1 = Some (res, s')"
    using dispose_total [of sentinel_state 1] by auto
  from inst 1 have a: "add sentinel_state EMPTY (VObj 1) = dispose sentinel_state 1" by simp
  from inst d have "get s' EMPTY = Sub True VUndefined None" by blast
  with a d have "map_option (\<lambda>(res, s'). get s' EMPTY) (add sentinel_state EMPTY (VObj 1)) =
     Some (Sub True VUndefined None)" by simp
  with inst e 1 a show ?thesis by simp
qed

text \<open>
  The counterexample to the claim as stated: adding the active registry 1 to the sentinel
  has an effect on the argument, which is disposed by it.
\<close>

theorem sentinel_neutral_counterexample:
  "\<not> disposed sentinel_state 1 \<and>
   map_option (\<lambda>(res, s'). disposed s' 1) (add sentinel_state EMPTY (VObj 1)) = Some True"
  by (simp add: sentinel_state_def disposed_def add_def add_object_def EMPTY_def
      prop_isUnsubscribed_def has_unsubscribe_def eval_simps)

section \<open>Adding to a disposed registry\<close>

lemma dispose_wrapper:
  assumes "get s w = Sub False (VFun f) None"
  shows "dispose s w =
     Some (case code s f of Return \<Rightarrow> Return | Throw e \<Rightarrow> Throw (UnsubscriptionError [e]),
           snd (call_fn (put s w (Sub True (VFun f) None)) (VFun f) (VObj w)))"
  by (cases "code s f")
     (simp_all add: dispose_def primary_eq [OF assms] fst_primary snd_primary isFunction_def
        call_fn_def)

text \<open>
  Claim C7 (deferred-immediate execution). Let \<open>r\<close> be a disposed registry, in a state
  whose sentinel is disposed. Adding an active registry \<open>c\<close> to \<open>r\<close> is the disposal of
  \<open>c\<close>: it returns or signals what \<open>c.dispose()\<close> does, with nothing added by \<open>r\<close>, and
  leaves \<open>c\<close> disposed. Adding a function \<open>f\<close> to \<open>r\<close> is the disposal of the fresh
  registry that wraps \<open>f\<close>: \<open>f\<close> is called once, the wrapper ends disposed, and a failure
  of \<open>f\<close> reaches the caller of \<open>add\<close> as the wrapper signals it.
\<close>

theorem add_after_dispose:
  assumes r: "get s r = Sub True un subs" and e: "disposed s EMPTY"
  shows "(\<forall>cun csubs. get s c = Sub False cun csubs \<longrightarrow>
            add s r (VObj c) = dispose s c \<and>
            (\<exists>res s'. add s r (VObj c) = Some (res, s') \<and> disposed s' c)) \<and>
         add s r (VFun f) = dispose (snd (new_Subscription s (VFun f))) (length (heap s)) \<and>
         (\<exists>s'. add s r (VFun f) =
                 Some (case code s f of Return \<Rightarrow> Return
                       | Throw e \<Rightarrow> Throw (UnsubscriptionError [e]), s') \<and>
               disposed s' (length (heap s)) \<and>
               calls s' = calls s @ [(VObj (length (heap s)), VFun f)])"
proof (intro conjI allI impI)
  fix cun csubs
  assume c: "get s c = Sub False cun csubs"
  with r e have "c \<noteq> r" "c \<noteq> EMPTY" by (auto simp: disposed_def)
  with r c show eq: "add s r (VObj c) = dispose s c"
    by (simp add: add_def add_object_disposed)
  obtain res s' where d: "dispose s c = Some (res, s')"
    using dispose_total [of s c] by auto
  then have "disposed s' c"
    unfolding dispose_def using c by (intro disposed_after) auto
  with d eq show "\<exists>res s'. add s r (VObj c) = Some (res, s') \<and> disposed s' c" by simp
next
  let ?s1 = "snd (new_Subscription s (VFun f))" and ?w = "length (heap s)"
  from r have "r < ?w" by (rule get_Sub_bound)
  with r have r1: "get ?s1 r = Sub True un subs" by (simp add: get_new_Subscription)
  have w: "get ?s1 ?w = Sub False (VFun f) None" by (simp add: get_new_Subscription)
  from r show eq: "add s r (VFun f) = dispose ?s1 ?w"
    by (simp add: add_function add_object_disposed [OF r1 w])
  let ?s' = "snd (call_fn (put ?s1 ?w (Sub True (VFun f) None)) (VFun f) (VObj ?w))"
  have "add s r (VFun f) =
          Some (case code s f of Return \<Rightarrow> Return | Throw e \<Rightarrow> Throw (UnsubscriptionError [e]), ?s')"
    using dispose_wrapper [OF w] eq by (simp add: new_Subscription_def)
  moreover have "disposed ?s' ?w"
    by (simp add: disposed_def get_put new_Subscription_def)
  moreover have "calls ?s' = calls s @ [(VObj ?w, VFun f)]"
    by (simp add: new_Subscription_def)
  ultimately show "\<exists>s'. add s r (VFun f) =
                 Some (case code s f of Return \<Rightarrow> Return
                       | Throw e \<Rightarrow> Throw (UnsubscriptionError [e]), s') \<and>
               disposed s' ?w \<and> calls s' = calls s @ [(VObj ?w, VFun f)]"
    by blast
qed

text \<open>
  The theorem at the scenario: the active registry 2 and the failing function 1 are added
  to the disposed registry 1. Both additions signal the aggregate of \<open>''late''\<close> alone, the
  first as the registry 2 signals it, the second as the new wrapper 4 does.
\<close>

theorem add_after_dispose_witness:
  "get late_state 1 = Sub True VUndefined None \<and> disposed late_state EMPTY \<and>
   get late_state 2 = Sub False VUndefined (Some [VObj 3]) \<and>
   add late_state 1 (VObj 2) = dispose late_state 2 \<and>
   map_option fst (add late_state 1 (VObj 2)) = Some (Throw (UnsubscriptionError [VStr ''late''])) \<and>
   map_option (\<lambda>(res, s'). disposed s' 2) (add late_state 1 (VObj 2)) = Some True \<and>
   map_option fst (add late_state 1 (VFun 1)) = Some (Throw (UnsubscriptionError [VStr ''late''])) \<and>
   map_option (\<lambda>(res, s'). disposed s' 4) (add late_state 1 (VFun 1)) = Some True \<and>
   map_option (\<lambda>(res, s'). calls s') (add late_state 1 (VFun 1)) = Some [(VObj 4, VFun 1)]"
proof -
  have r: "get late_state 1 = Sub True VUndefined None"
    and c: "get late_state 2 = Sub False VUndefined (Some [VObj 3])"
    by (simp_all add: late_state_def get_def)
  have e: "disposed late_state EMPTY"
    by (simp add: late_state_def disposed_def get_def EMPTY_def)
  have d: "map_option fst (dispose late_state 2) = Some (Throw (UnsubscriptionError [VStr ''late'']))"
    by (simp add: late_state_def late_code_def eval_simps)
  have f: "code late_state 1 = Throw (VStr ''late'')" "length (heap late_state) = 4"
    "calls late_state = []"
    by (simp_all add: late_state_def late_code_def)
  note inst = add_after_dispose [OF r e, of 2 1]
  from inst c have a2: "add late_state 1 (VObj 2) = dispose late_state 2" by blast
  from inst c obtain res s' where "add late_state 1 (VObj 2) = Some (res, s')" "disposed s' 2"
    by blast
  then have d2: "map_option (\<lambda>(res, s'). disposed s' 2) (add late_state 1 (VObj 2)) = Some True"
    by simp
  from inst [THEN conjunct2, THEN conjunct2, unfolded f]
  obtain t where "add late_state 1 (VFun 1) = Some (Throw (UnsubscriptionError [VStr ''late'']), t)"
    "disposed t 4" "calls t = [(VObj 4, VFun 1)]"
    by auto
  then have "map_option fst (add late_state 1 (VFun 1)) = Some (Throw (UnsubscriptionError [VStr ''late'']))"
    "map_option (\<lambda>(res, s'). disposed s' 4) (add late_state 1 (VFun 1)) = Some True"
    "map_option (\<lambda>(res, s'). calls s') (add late_state 1 (VFun 1)) = Some [(VObj 4, VFun 1)]"
    by simp_all
  with r e c a2 d2 d show ?thesis by simp
qed

section \<open>Removal\<close>

lemma indexOf_ge: "- 1 \<le> indexOf xs v"
  by (induction xs) (auto simp: Let_def)

lemma indexOf_absent: "indexOf xs v = - 1 \<longleftrightarrow> v \<notin> set xs"
proof (induction xs)
  case Nil
  then show ?case by simp
next
  case (Cons x xs)
  from indexOf_ge [of xs v] have "indexOf xs v + 1 \<noteq> - 1" by simp
  with Cons show ?case by (auto simp: Let_def)
qed

lemma splice1_indexOf: "v \<in> set xs \<Longrightarrow> splice1 xs (nat (indexOf xs v)) = remove1 v xs"
proof (induction xs)
  case Nil
  then show ?case by simp
next
  case (Cons x xs)
  show ?case
  proof (cases "x = v")
    case True
    then show ?thesis by (simp add: splice1_def)
  next
    case False
    with Cons.prems have in_xs: "v \<in> set xs" by simp
    then have "indexOf xs v \<noteq> - 1" by (simp add: indexOf_absent)
    with indexOf_ge [of xs v] have nonneg: "0 \<le> indexOf xs v" by simp
    then have "nat (indexOf xs v + 1) = Suc (nat (indexOf xs v))" by simp
    with False Cons.IH [OF in_xs] \<open>indexOf xs v \<noteq> - 1\<close> show ?thesis
      by (simp add: splice1_def Let_def)
  qed
qed

lemma put_put [simp]: "put (put s a x) a y = put s a y"
  by (simp add: put_def)

lemma remove_eq:
  assumes "get s p = Sub isU un (Some cs)"
    and "v \<noteq> VNull" "v \<noteq> VUndefined" "v \<noteq> VObj p" "v \<noteq> VObj EMPTY"
  shows "remove s p v =
     (Return, if v \<in> set cs then put s p (Sub isU un (Some (remove1 v cs))) else s)"
  using assms by (simp add: remove_def Let_def indexOf_absent splice1_indexOf)

lemma remove_noop:
  assumes "get s p = Sub isU un subs"
    and "v = VNull \<or> v = VUndefined \<or> v = VObj p \<or> v = VObj EMPTY \<or> subs = None"
  shows "remove s p v = (Return, s)"
  using assms by (auto simp: remove_def)

lemma remove_frame:
  "calls (snd (remove s p v)) = calls s \<and> code (snd (remove s p v)) = code s \<and>
   (a \<noteq> p \<longrightarrow> get (snd (remove s p v)) a = get s a) \<and>
   disposed (snd (remove s p v)) a = disposed s a"
  by (cases "get s p") (auto simp: remove_def Let_def disposed_def get_put split: option.splits)

lemma active_count_put_same:
  assumes "a < length (heap s)" and "is_active ob = is_active (heap s ! a)"
  shows "active_count (put s a ob) = active_count s"
proof (rule antisym)
  show "active_count (put s a ob) \<le> active_count s"
    unfolding active_count_def put_def using assms
    by (intro filter_length_mono) (auto simp: nth_list_update)
  show "active_count s \<le> active_count (put s a ob)"
    unfolding active_count_def put_def using assms
    by (intro filter_length_mono) (auto simp: nth_list_update)
qed

lemma primary_put: "primary (put s p ob) p un = primary s p un"
  by (simp add: primary_def)

lemma dispose_put_children:
  assumes p: "get s p = Sub False un subs"
  shows "dispose (put s p (Sub False un (Some (children s p)))) p = dispose s p"
proof -
  let ?t = "put s p (Sub False un (Some (children s p)))"
  from p have b: "p < length (heap s)" by (rule get_Sub_bound)
  with p have ac: "active_count ?t = active_count s"
    by (intro active_count_put_same) (simp_all add: get_def)
  from b have t: "get ?t p = Sub False un (Some (children s p))" by (simp add: get_put)
  show ?thesis
    unfolding dispose_def ac primary_eq [OF t] primary_eq [OF p] primary_put
    using p by (cases subs) (simp_all add: children_def case_prod_beta)
qed

lemma add_then_remove:
  assumes p: "get s p = Sub False un subs"
    and fresh: "VObj c \<notin> set (children s p)"
    and add: "add s p (VObj c) = Some (res, s1)"
  shows "snd (remove s1 p (VObj c)) = s \<or>
         snd (remove s1 p (VObj c)) = put s p (Sub False un (Some (children s p)))"
proof (cases "c = p \<or> c = EMPTY")
  case True
  with p add have "s1 = s" by (auto simp: add_def)
  with True p show ?thesis by (auto simp: remove_def)
next
  case False
  then have ne: "VObj c \<noteq> VObj p" "VObj c \<noteq> VObj EMPTY" by simp_all
  from p have b: "p < length (heap s)" by (rule get_Sub_bound)
  show ?thesis
  proof (cases "truthy (prop_isUnsubscribed s (VObj c)) \<or> \<not> has_unsubscribe s (VObj c)")
    case True
    with False p add have s1: "s1 = s" by (auto simp: add_def add_object_def)
    show ?thesis
    proof (cases subs)
      case None
      with p s1 show ?thesis by (simp add: remove_def)
    next
      case (Some cs)
      with p fresh have "VObj c \<notin> set cs" by (simp add: children_def)
      with remove_eq [OF p [unfolded Some] _ _ ne] s1 show ?thesis by simp
    qed
  next
    case stored: False
    let ?cs = "children s p"
    from p have cs: "(case subs of None \<Rightarrow> [] | Some cs \<Rightarrow> cs) = ?cs"
      by (simp add: children_def split: option.splits)
    from stored False p add have s1: "s1 = put s p (Sub False un (Some (?cs @ [VObj c])))"
      by (auto simp: add_def add_object_def cs)
    with b have g1: "get s1 p = Sub False un (Some (?cs @ [VObj c]))" by (simp add: get_put)
    from fresh have "remove1 (VObj c) (?cs @ [VObj c]) = ?cs"
      by (simp add: remove1_append)
    with remove_eq [OF g1 _ _ ne] s1 show ?thesis by simp
  qed
qed

text \<open>
  Claim C8 (removal semantics), as the code has it. Let \<open>p\<close> be a registry.
  \<^item> If \<open>p\<close> is active and does not hold \<open>c\<close> yet, then after \<open>p.add(c)\<close> and
    \<open>p.remove(c)\<close> the children of \<open>p\<close> are what they were, and \<open>p.dispose()\<close> does
    exactly what it does when \<open>c\<close> was never added: its cascade does not reach \<open>c\<close>
    through \<open>p\<close>.
  \<^item> \<open>remove\<close> takes out the first entry equal to its argument, and no other.
  \<^item> \<open>remove\<close> changes nothing when its argument is \<open>null\<close>, \<open>undefined\<close>, \<open>p\<close> itself or
    EMPTY, when it is not among the children, or when \<open>p\<close> has no child collection.
  \<^item> \<open>remove\<close> calls nothing, touches no object but \<open>p\<close>, and leaves every object as
    disposed or not as it was: it never disposes the removed child.
\<close>

theorem remove_semantics:
  assumes p: "get s p = Sub isU un subs"
  shows "(\<not> isU \<and> VObj c \<notin> set (children s p) \<longrightarrow>
            (\<forall>res s1. add s p (VObj c) = Some (res, s1) \<longrightarrow>
               children (snd (remove s1 p (VObj c))) p = children s p \<and>
               dispose (snd (remove s1 p (VObj c))) p = dispose s p)) \<and>
         (v \<noteq> VNull \<and> v \<noteq> VUndefined \<and> v \<noteq> VObj p \<and> v \<noteq> VObj EMPTY \<and> v \<in> set (children s p) \<longrightarrow>
            remove s p v = (Return, put s p (Sub isU un (Some (remove1 v (children s p)))))) \<and>
         (v = VNull \<or> v = VUndefined \<or> v = VObj p \<or> v = VObj EMPTY \<or> v \<notin> set (children s p)
            \<or> subs = None \<longrightarrow> remove s p v = (Return, s)) \<and>
         calls (snd (remove s p v)) = calls s \<and>
         (\<forall>a. a \<noteq> p \<longrightarrow> get (snd (remove s p v)) a = get s a) \<and>
         (\<forall>a. disposed (snd (remove s p v)) a = disposed s a)"
proof (intro conjI impI allI)
  fix res s1
  assume h: "\<not> isU \<and> VObj c \<notin> set (children s p)" and a: "add s p (VObj c) = Some (res, s1)"
  with p have pa: "get s p = Sub False un subs" by simp
  from pa have b: "p < length (heap s)" by (rule get_Sub_bound)
  let ?s2 = "snd (remove s1 p (VObj c))"
  from add_then_remove [OF pa _ a] h
  have alt: "?s2 = s \<or> ?s2 = put s p (Sub False un (Some (children s p)))" by simp
  then show "children ?s2 p = children s p"
    using b by (auto simp: children_def get_put)
  from alt show "dispose ?s2 p = dispose s p"
    using dispose_put_children [OF pa] by auto
next
  assume h: "v \<noteq> VNull \<and> v \<noteq> VUndefined \<and> v \<noteq> VObj p \<and> v \<noteq> VObj EMPTY \<and> v \<in> set (children s p)"
  then obtain cs where subs: "subs = Some cs" and cs: "children s p = cs"
    using p by (cases subs) (simp_all add: children_def)
  from remove_eq [OF p [unfolded subs]] h cs
  show "remove s p v = (Return, put s p (Sub isU un (Some (remove1 v (children s p)))))"
    by simp
next
  assume h: "v = VNull \<or> v = VUndefined \<or> v = VObj p \<or> v = VObj EMPTY \<or> v \<notin> set (children s p)
            \<or> subs = None"
  show "remove s p v = (Return, s)"
  proof (cases "v = VNull \<or> v = VUndefined \<or> v = VObj p \<or> v = VObj EMPTY \<or> subs = None")
    case True
    with p show ?thesis by (rule remove_noop)
  next
    case False
    then obtain cs where subs: "subs = Some cs" by auto
    with p have "children s p = cs" by (simp add: children_def)
    with h False have "v \<notin> set cs" by simp
    with remove_eq [OF p [unfolded subs]] False show ?thesis by simp
  qed
next
  show "calls (snd (remove s p v)) = calls s" by (simp add: remove_frame)
  show "get (snd (remove s p v)) a = get s a" if "a \<noteq> p" for a
    using that remove_frame [of s p v a] by simp
  show "disposed (snd (remove s p v)) a = disposed s a" for a
    using remove_frame [of s p v a] by simp
qed

text \<open>
  The theorem at the scenario \<open>p.add(c1); p.remove(c1); p.dispose()\<close>, with the registry
  1 for \<open>p\<close> and 2 for \<open>c1\<close>: the disposal calls nothing and leaves \<open>c1\<close> active.
\<close>

theorem remove_semantics_witness:
  "get rm_state 1 = Sub False VUndefined None \<and> VObj 2 \<notin> set (children rm_state 1) \<and>
   map_option (\<lambda>(res, s1). children s1 1) (add rm_state 1 (VObj 2)) = Some [VObj 2] \<and>
   map_option (\<lambda>(res, s1). children (snd (remove s1 1 (VObj 2))) 1) (add rm_state 1 (VObj 2)) = Some [] \<and>
   map_option (\<lambda>(res, s1). map_option (\<lambda>(res, s'). (res, calls s', disposed s' 2))
       (dispose (snd (remove s1 1 (VObj 2))) 1)) (add rm_state 1 (VObj 2)) =
     Some (Some (Return, [], False))"
proof -
  have p: "get rm_state 1 = Sub False VUndefined None"
    by (simp add: rm_state_def get_def)
  have fresh: "VObj 2 \<notin> set (children rm_state 1)"
    by (simp add: children_def rm_state_def get_def)
  obtain s1 where a: "add rm_state 1 (VObj 2) = Some (Return, s1)" and c1: "children s1 1 = [VObj 2]"
    by (simp add: rm_state_def add_def add_object_def get_def put_def EMPTY_def children_def
        prop_isUnsubscribed_def has_unsubscribe_def)
  have d: "map_option (\<lambda>(res, s'). (res, calls s', disposed s' 2)) (dispose rm_state 1)
             = Some (Return, [], False)"
    by (simp add: rm_state_def disposed_def eval_simps)
  from remove_semantics [OF p, of 2] fresh a
  have "children (snd (remove s1 1 (VObj 2))) 1 = children rm_state 1"
    and "dispose (snd (remove s1 1 (VObj 2))) 1 = dispose rm_state 1"
    by auto
  with p fresh a c1 d show ?thesis by (simp add: children_def)
qed

text \<open>
  The counterexample to the claim as stated: the registry 1 holds the registry 2 already
  when the registry 2 is added to it and then removed. One entry stays, and the disposal
  of the registry 1 calls the primary action of the registry 2 and leaves it disposed.
\<close>

theorem remove_semantics_counterexample:
  "children twice_state 1 = [VObj 2] \<and>
   map_option (\<lambda>(res, s'). (calls s', disposed s' 2))
       (dispose (snd (remove (after (add twice_state 1 (VObj 2)) twice_state) 1 (VObj 2))) 1) =
     Some ([(VObj 2, VFun 1)], True)"
  by (simp add: dup_simps eval_simps remove_def splice1_def disposed_def)

section \<open>Cycle safety\<close>

lemma children_out_of_range: "\<not> a < length (heap s) \<Longrightarrow> children s a = []"
  by (simp add: children_def get_def)

lemma no_self_iff: "no_self s \<longleftrightarrow> (\<forall>a. VObj a \<notin> set (children s a))"
proof
  assume "no_self s"
  then have "\<forall>a<length (heap s). VObj a \<notin> set (children s a)"
    by (simp add: no_self_def list_all_iff)
  then show "\<forall>a. VObj a \<notin> set (children s a)"
    by (metis children_out_of_range empty_iff empty_set)
next
  assume "\<forall>a. VObj a \<notin> set (children s a)"
  then show "no_self s" by (simp add: no_self_def list_all_iff)
qed

lemma children_frame: "frame s s' \<Longrightarrow> children s' a = children s a \<or> children s' a = []"
  using frameD [of s s' a] by (auto simp: children_def)

lemma no_self_frame: "frame s s' \<Longrightarrow> no_self s \<Longrightarrow> no_self s'"
  unfolding no_self_iff using children_frame by (metis empty_iff empty_set)

lemma no_self_dispose: "dispose s r = Some (res, s') \<Longrightarrow> no_self s \<Longrightarrow> no_self s'"
  unfolding dispose_def by (blast intro: no_self_frame frame_unsubscribe)

lemma children_put:
  "children (put s a ob) b =
     (if b = a \<and> a < length (heap s) then (case ob of Sub u f (Some cs) \<Rightarrow> cs | _ \<Rightarrow> [])
      else children s b)"
  by (simp add: children_def get_put)

lemma children_new_Subscription:
  "children (snd (new_Subscription s u)) a = children s a"
proof (cases "a = length (heap s)")
  case True
  then have "get s a = Plain VUndefined VUndefined" by (simp add: get_def)
  with True show ?thesis by (simp add: children_def get_new_Subscription)
next
  case False
  then show ?thesis by (simp add: children_def get_new_Subscription)
qed

lemma no_self_new_Subscription: "no_self s \<Longrightarrow> no_self (snd (new_Subscription s u))"
  by (simp add: no_self_iff children_new_Subscription)

lemma no_self_add_object:
  assumes "add_object s this sub = Some (res, s')" and "no_self s" and "sub \<noteq> VObj this"
  shows "no_self s'"
proof (cases "get s this")
  case (Plain i u)
  with assms show ?thesis by (simp add: add_object_def)
next
  case (Sub isU un subs)
  show ?thesis
  proof (cases "truthy (prop_isUnsubscribed s sub) \<or> \<not> has_unsubscribe s sub")
    case True
    with Sub assms show ?thesis by (simp add: add_object_def)
  next
    case False
    show ?thesis
    proof (cases isU)
      case True
      with Sub False assms(1)
      have "(case sub of VObj c \<Rightarrow> dispose s c | _ \<Rightarrow> Some (Throw TypeError, s)) = Some (res, s')"
        by (simp add: add_object_def)
      with assms(2) show ?thesis by (cases sub) (auto dest: no_self_dispose)
    next
      case isU: False
      from Sub have cs: "(case subs of None \<Rightarrow> [] | Some cs \<Rightarrow> cs) = children s this"
        by (simp add: children_def split: option.splits)
      from Sub False isU assms(1)
      have s': "s' = put s this (Sub isU un (Some (children s this @ [sub])))"
        by (simp add: add_object_def cs)
      from assms(2,3) show ?thesis
        unfolding s' no_self_iff by (auto simp: children_put)
    qed
  qed
qed

lemma no_self_add:
  assumes "add s this t = Some (res, s')" and "no_self s"
  shows "no_self s'"
proof (cases "\<not> is_Sub (get s this) \<or> \<not> truthy t \<or> t = VObj this \<or> t = VObj EMPTY")
  case True
  with assms show ?thesis by (auto simp: add_def split: if_splits)
next
  case False
  then have sub: "is_Sub (get s this)" and ne: "t \<noteq> VObj this" by simp_all
  show ?thesis
  proof (cases "typeof t = TFunction")
    case True
    from sub have "this < length (heap s)" by (cases "get s this") (auto dest: get_Sub_bound)
    then have "VObj (length (heap s)) \<noteq> VObj this" by simp
    with assms sub True show ?thesis
      by (auto simp: add_function intro: no_self_add_object no_self_new_Subscription)
  next
    case nf: False
    show ?thesis
    proof (cases "typeof t = TObject")
      case True
      with assms False have "add_object s this t = Some (res, s')" by (simp add: add_def)
      from this assms(2) ne show ?thesis by (rule no_self_add_object)
    next
      case False
      with nf assms \<open>\<not> (\<not> is_Sub (get s this) \<or> \<not> truthy t \<or> t = VObj this \<or> t = VObj EMPTY)\<close>
      show ?thesis by (cases "typeof t") (auto simp: add_def)
    qed
  qed
qed

lemma no_self_remove: "no_self s \<Longrightarrow> no_self (snd (remove s this t))"
proof -
  assume ns: "no_self s"
  have "set (children (snd (remove s this t)) a) \<subseteq> set (children s a)" for a
  proof (cases "get s this")
    case (Plain i u)
    then show ?thesis by (simp add: remove_def)
  next
    case (Sub isU un subs)
    show ?thesis
    proof (cases "t = VNull \<or> t = VUndefined \<or> t = VObj this \<or> t = VObj EMPTY \<or> subs = None")
      case True
      with Sub show ?thesis by (simp add: remove_noop)
    next
      case False
      then obtain cs where subs: "subs = Some cs" by auto
      with Sub have cs: "children s this = cs" by (simp add: children_def)
      from False have "remove s this t =
          (Return, if t \<in> set cs then put s this (Sub isU un (Some (remove1 t cs))) else s)"
        by (intro remove_eq [OF Sub [unfolded subs]]) simp_all
      with cs set_remove1_subset [of t cs] show ?thesis
        by (auto simp: children_put)
    qed
  qed
  with ns show ?thesis unfolding no_self_iff by blast
qed

text \<open>
  Claim C9 (cycle safety). For every registry \<open>r\<close>, \<open>r.add(r)\<close> returns and changes
  nothing. No registry holds itself as a child in the initial state, and \<open>add\<close>,
  \<open>remove\<close>, \<open>dispose\<close> and the constructor keep it so. In every state whatever, also one
  whose registries own each other in a cycle, \<open>dispose\<close> comes to an end: it returns or
  signals.
\<close>

theorem cycle_safety:
  "(is_Sub (get s r) \<longrightarrow> add s r (VObj r) = Some (Return, s)) \<and>
   no_self (init c) \<and>
   (no_self s \<longrightarrow>
      (\<forall>res s'. add s r t = Some (res, s') \<longrightarrow> no_self s') \<and>
      no_self (snd (remove s r t)) \<and>
      (\<forall>res s'. dispose s r = Some (res, s') \<longrightarrow> no_self s') \<and>
      no_self (snd (new_Subscription s t))) \<and>
   (\<exists>res s'. dispose s r = Some (res, s'))"
proof (intro conjI impI allI)
  show "add s r (VObj r) = Some (Return, s)" if "is_Sub (get s r)"
    using that by (simp add: add_def)
  show "no_self (init c)"
    by (simp add: no_self_def init_def children_def get_def)
  show "\<exists>res s'. dispose s r = Some (res, s')"
    using dispose_total [of s r] by auto
next
  assume ns: "no_self s"
  show "no_self s'" if "add s r t = Some (res, s')" for res s'
    using that ns by (rule no_self_add)
  show "no_self (snd (remove s r t))"
    using ns by (rule no_self_remove)
  show "no_self s'" if "dispose s r = Some (res, s')" for res s'
    using that ns by (rule no_self_dispose)
  show "no_self (snd (new_Subscription s t))"
    using ns by (rule no_self_new_Subscription)
qed

text \<open>
  The theorem at the scenario: adding the registry 1 to itself changes nothing, and the
  disposal of the registry 1, which owns the registry 2, which owns the registry 1, ends
  after one call of each primary action; so does the disposal of the registry 3, which
  was made to own itself.
\<close>

theorem cycle_safety_witness:
  "is_Sub (get cycle_state 1) \<and>
   add cycle_state 1 (VObj 1) = Some (Return, cycle_state) \<and>
   map_option (\<lambda>(res, s'). (res, calls s')) (dispose cycle_state 1) =
     Some (Return, [(VObj 1, VFun 1), (VObj 2, VFun 2)]) \<and>
   map_option (\<lambda>(res, s'). (res, calls s')) (dispose cycle_state 3) =
     Some (Return, [(VObj 3, VFun 3)]) \<and>
   no_self (init (\<lambda>f. Return)) \<and>
   no_self (snd (new_Subscription (init (\<lambda>f. Return)) VUndefined))"
proof -
  have r: "is_Sub (get cycle_state 1)"
    by (simp add: cycle_state_def get_def)
  have d1: "map_option (\<lambda>(res, s'). (res, calls s')) (dispose cycle_state 1) =
     Some (Return, [(VObj 1, VFun 1), (VObj 2, VFun 2)])"
    by (simp add: cycle_state_def eval_simps)
  have d3: "map_option (\<lambda>(res, s'). (res, calls s')) (dispose cycle_state 3) =
     Some (Return, [(VObj 3, VFun 3)])"
    by (simp add: cycle_state_def eval_simps)
  note inst = cycle_safety [of cycle_state 1 "\<lambda>f. Return" VUndefined]
  from inst r have a: "add cycle_state 1 (VObj 1) = Some (Return, cycle_state)"
    by blast
  note inst0 = cycle_safety [of "init (\<lambda>f. Return)" 0 "\<lambda>f. Return" VUndefined]
  from inst0 have i: "no_self (init (\<lambda>f. Return))" by blast
  with inst0 have n: "no_self (snd (new_Subscription (init (\<lambda>f. Return)) VUndefined))" by blast
  from r a d1 d3 i n show ?thesis by blast
qed

section \<open>Wrappers of functions\<close>

lemma add_function_active:
  assumes p: "get s p = Sub False un subs"
  shows "add s p (VFun f) =
     Some (Return, put (snd (new_Subscription s (VFun f))) p
                     (Sub False un (Some (children s p @ [VObj (length (heap s))]))))"
proof -
  let ?t = "snd (new_Subscription s (VFun f))"
  from p have "p < length (heap s)" by (rule get_Sub_bound)
  with p have p1: "get ?t p = Sub False un subs" by (simp add: get_new_Subscription)
  have w: "get ?t (length (heap s)) = Sub False (VFun f) None"
    by (simp add: get_new_Subscription)
  from p have cs: "(case subs of None \<Rightarrow> [] | Some cs \<Rightarrow> cs) = children s p"
    by (simp add: children_def split: option.splits)
  from p have "add s p (VFun f) = add_object ?t p (VObj (length (heap s)))"
    by (simp add: add_function)
  also have "\<dots> = Some (Return, put ?t p (Sub False un (Some (children s p @ [VObj (length (heap s))]))))"
    by (simp add: add_object_def p1 w prop_isUnsubscribed_def has_unsubscribe_def cs)
  finally show ?thesis .
qed

lemma add_function_result:
  assumes p: "get s p = Sub False un subs"
  obtains s1 where "add s p (VFun f) = Some (Return, s1)"
    and "get s1 p = Sub False un (Some (children s p @ [VObj (length (heap s))]))"
    and "get s1 (length (heap s)) = Sub False (VFun f) None"
    and "children s1 p = children s p @ [VObj (length (heap s))]"
    and "length (heap s1) = Suc (length (heap s))"
proof -
  define s1 where "s1 = put (snd (new_Subscription s (VFun f))) p
                     (Sub False un (Some (children s p @ [VObj (length (heap s))])))"
  from p have b: "p < length (heap s)" by (rule get_Sub_bound)
  have "add s p (VFun f) = Some (Return, s1)"
    unfolding s1_def using p by (rule add_function_active)
  moreover from b have g: "get s1 p = Sub False un (Some (children s p @ [VObj (length (heap s))]))"
    by (simp add: s1_def get_put new_Subscription_def)
  moreover from b have "get s1 (length (heap s)) = Sub False (VFun f) None"
    by (simp add: s1_def get_put get_new_Subscription)
  moreover from g have "children s1 p = children s p @ [VObj (length (heap s))]"
    by (simp add: children_def)
  moreover have "length (heap s1) = Suc (length (heap s))"
    by (simp add: s1_def new_Subscription_def)
  ultimately show thesis by (rule that)
qed

text \<open>
  Claim C10 (wrapper opacity). Let \<open>p\<close> be an active registry and \<open>f\<close> a function.
  \<open>p.add(f)\<close> returns, makes a new registry with the primary action \<open>f\<close> at the next free
  address, and appends a reference to it, not \<open>f\<close>, to the children of \<open>p\<close>. A second
  \<open>p.add(f)\<close> makes and appends another one. After the first \<open>add\<close>, \<open>remove\<close> with any
  argument but the reference to the wrapper leaves the wrapper among the children of
  \<open>p\<close>, and \<open>p.remove(f)\<close> changes nothing at all when \<open>p\<close> held no function before.
\<close>

theorem wrapper_opacity:
  assumes p: "get s p = Sub False un subs"
  shows "\<exists>s1 s2.
           add s p (VFun f) = Some (Return, s1) \<and>
           get s1 (length (heap s)) = Sub False (VFun f) None \<and>
           children s1 p = children s p @ [VObj (length (heap s))] \<and>
           add s1 p (VFun f) = Some (Return, s2) \<and>
           children s2 p = children s p @ [VObj (length (heap s)), VObj (Suc (length (heap s)))] \<and>
           (\<forall>v. v \<noteq> VObj (length (heap s)) \<longrightarrow>
                VObj (length (heap s)) \<in> set (children (snd (remove s1 p v)) p)) \<and>
           (VFun f \<notin> set (children s p) \<longrightarrow> remove s1 p (VFun f) = (Return, s1))"
proof -
  let ?w = "length (heap s)"
  from p obtain s1 where a1: "add s p (VFun f) = Some (Return, s1)"
    and p1: "get s1 p = Sub False un (Some (children s p @ [VObj ?w]))"
    and w1: "get s1 ?w = Sub False (VFun f) None"
    and c1: "children s1 p = children s p @ [VObj ?w]"
    and len1: "length (heap s1) = Suc ?w"
    by (rule add_function_result)
  from p1 obtain s2 where a2: "add s1 p (VFun f) = Some (Return, s2)"
    and "children s2 p = children s1 p @ [VObj (length (heap s1))]"
    by (rule add_function_result)
  then have c2: "children s2 p = children s p @ [VObj ?w, VObj (Suc ?w)]"
    by (simp add: c1 len1)
  from p1 have b: "p < length (heap s1)" by (rule get_Sub_bound)
  have keep: "VObj ?w \<in> set (children (snd (remove s1 p v)) p)" if v: "v \<noteq> VObj ?w" for v
  proof (cases "v = VNull \<or> v = VUndefined \<or> v = VObj p \<or> v = VObj EMPTY")
    case True
    with p1 have "remove s1 p v = (Return, s1)" by (intro remove_noop) auto
    with c1 show ?thesis by simp
  next
    case False
    then have "remove s1 p v =
        (Return, if v \<in> set (children s p @ [VObj ?w])
                 then put s1 p (Sub False un (Some (remove1 v (children s p @ [VObj ?w])))) else s1)"
      by (intro remove_eq [OF p1]) simp_all
    with v b c1 show ?thesis
      by (auto simp: children_put)
  qed
  have same: "remove s1 p (VFun f) = (Return, s1)" if "VFun f \<notin> set (children s p)"
  proof -
    have "remove s1 p (VFun f) =
        (Return, if VFun f \<in> set (children s p @ [VObj ?w])
                 then put s1 p (Sub False un (Some (remove1 (VFun f) (children s p @ [VObj ?w])))) else s1)"
      by (intro remove_eq [OF p1]) simp_all
    with that show ?thesis by simp
  qed
  from a1 w1 c1 a2 c2 keep same show ?thesis by blast
qed

text \<open>
  The theorem at the scenario: the function 7 is added twice to the registry 1, which
  then owns the new registries 2 and 3, both with the primary action 7; removing the
  function after the first \<open>add\<close> changes nothing.
\<close>

theorem wrapper_opacity_witness:
  "get wrap_state 1 = Sub False VUndefined None \<and>
   map_option (\<lambda>(res, s1). (res, children s1 1, get s1 2)) (add wrap_state 1 (VFun 7)) =
     Some (Return, [VObj 2], Sub False (VFun 7) None) \<and>
   map_option (\<lambda>(res, s1). map_option (\<lambda>(res, s2). (res, children s2 1)) (add s1 1 (VFun 7)))
       (add wrap_state 1 (VFun 7)) = Some (Some (Return, [VObj 2, VObj 3])) \<and>
   map_option (\<lambda>(res, s1). children (snd (remove s1 1 (VFun 7))) 1) (add wrap_state 1 (VFun 7)) =
     Some [VObj 2]"
proof -
  have p: "get wrap_state 1 = Sub False VUndefined None"
    by (simp add: wrap_state_def get_def)
  have f: "length (heap wrap_state) = 2" "children wrap_state 1 = []"
    by (simp_all add: wrap_state_def children_def get_def)
  from wrapper_opacity [OF p, of 7, unfolded f]
  obtain s1 s2 where "add wrap_state 1 (VFun 7) = Some (Return, s1)"
    "get s1 2 = Sub False (VFun 7) None" "children s1 1 = [] @ [VObj 2]"
    "add s1 1 (VFun 7) = Some (Return, s2)" "children s2 1 = [] @ [VObj 2, VObj (Suc 2)]"
    "VFun 7 \<notin> set [] \<longrightarrow> remove s1 1 (VFun 7) = (Return, s1)"
    by blast
  with p show ?thesis by (simp add: eval_nat_numeral)
qed

section \<open>The scenarios are states of the program\<close>

text \<open>
  The states of the scenarios that hold registries only come about by the operations of
  the class, from the initial state.
\<close>

lemmas build_simps = after_def construct_def new_Subscription_def init_def add_def add_object_def
  EMPTY_def prop_isUnsubscribed_def has_unsubscribe_def eval_simps

lemma idem_state_built:
  "idem_state =
     (let s1 = construct (init idem_code) VUndefined;
          s2 = after (add s1 1 (VFun 1)) s1
      in after (add s2 1 (VFun 2)) s2)"
  by (simp add: idem_state_def build_simps)

lemma nested_state_built: "nested_state = construct (init nested_code) (VFun 1)"
  by (simp add: nested_state_def build_simps)

lemma signal_state_built:
  "signal_state =
     (let s1 = construct (init signal_code) VUndefined;
          s2 = construct s1 VUndefined;
          s3 = after (add s2 1 (VObj 2)) s2
      in after (add s3 2 (VFun 1)) s3)"
  by (simp add: signal_state_def build_simps)

lemma keep_state_built:
  "keep_state =
     (let s1 = construct (init (\<lambda>f. Return)) (VFun 1);
          s2 = construct s1 VUndefined
      in after (add s2 1 (VObj 2)) s2)"
  by (simp add: keep_state_def build_simps)

lemma sentinel_state_built: "sentinel_state = construct (init (\<lambda>f. Return)) VUndefined"
  by (simp add: sentinel_state_def build_simps)

lemma late_state_built:
  "late_state =
     (let s1 = construct (init late_code) VUndefined;
          s2 = construct s1 VUndefined;
          s3 = after (add s2 2 (VFun 1)) s2
      in after (dispose s3 1) s3)"
  by (simp add: late_state_def build_simps)

lemma rm_state_built:
  "rm_state = construct (construct (init (\<lambda>f. Return)) VUndefined) (VFun 1)"
  by (simp add: rm_state_def build_simps)

lemma wrap_state_built: "wrap_state = construct (init (\<lambda>f. Return)) VUndefined"
  by (simp add: wrap_state_def build_simps)

end
